theory Spec2Isabelle
  imports Complex_Main "HOL-Library.Multiset"
begin

section \<open>Delegate apportionment of a snapshot (Snapshot.ts)\<close>

text \<open>
  The development embeds \<open>Snapshot.redistributeDelegates\<close> and \<open>Snapshot.revise\<close>.
  JavaScript numbers that hold counts are natural numbers here (the callers clamp
  counts and the allotment at zero). A JavaScript number that holds a quotient is an
  IEEE 754 double: the operator \<open>/\<close> returns the exact quotient rounded to the nearest
  double. Such a number is the real number that the double denotes.
\<close>

subsection \<open>Quotients of JavaScript numbers\<close>

text \<open>
  Rounding of a real number to the nearest integer, a tie going to the even one.
\<close>

definition roundEven :: "real \<Rightarrow> int" where
  "roundEven y =
     (let f = \<lfloor>y\<rfloor>; r = y - of_int f
      in if r < 1 / 2 then f else if 1 / 2 < r then f + 1 else if even f then f else f + 1)"

text \<open>
  The binary exponent of a positive number: \<open>2 powi binade x \<le> x < 2 powi (binade x + 1)\<close>.
\<close>

function binade :: "real \<Rightarrow> int" where
  "binade x =
     (if x \<le> 0 then 0
      else if 2 \<le> x then binade (x / 2) + 1
      else if x < 1 then binade (x * 2) - 1
      else 0)"
  by pat_completeness auto

termination
proof (relation "measure (\<lambda>x. nat \<bar>\<lfloor>log 2 x\<rfloor>\<bar>)")
  show "wf (measure (\<lambda>x. nat \<bar>\<lfloor>log 2 x\<rfloor>\<bar>))" by simp
next
  fix x :: real
  assume "\<not> x \<le> 0" and x: "2 \<le> x"
  have "log 2 (x / 2) = log 2 x - 1" using x by (simp add: log_divide)
  then have f: "\<lfloor>log 2 (x / 2)\<rfloor> = \<lfloor>log 2 x\<rfloor> - 1" by simp
  have "1 \<le> log 2 x" using x by (simp add: le_log_iff)
  then have "1 \<le> \<lfloor>log 2 x\<rfloor>" by linarith
  with f show "(x / 2, x) \<in> measure (\<lambda>x. nat \<bar>\<lfloor>log 2 x\<rfloor>\<bar>)" by simp
next
  fix x :: real
  assume x0: "\<not> x \<le> 0" and "\<not> 2 \<le> x" and x: "x < 1"
  have "log 2 (x * 2) = log 2 x + 1" using x0 by (simp add: log_mult)
  then have f: "\<lfloor>log 2 (x * 2)\<rfloor> = \<lfloor>log 2 x\<rfloor> + 1" by simp
  have "log 2 x < 0" using x x0 by simp
  then have "\<lfloor>log 2 x\<rfloor> \<le> -1" by linarith
  with f show "(x * 2, x) \<in> measure (\<lambda>x. nat \<bar>\<lfloor>log 2 x\<rfloor>\<bar>)" by simp
qed

declare binade.simps [simp del]

text \<open>
  The double nearest to a real number: the number is scaled so that its integer part has
  53 binary digits, rounded to an integer (a tie to the even one) and scaled back. The
  exponent is not bounded, so overflow to infinity and the subnormal numbers are not
  modelled; the quotients of the computation are far from both.
\<close>

definition toDouble :: "real \<Rightarrow> real" where
  "toDouble x =
     (if x = 0 then 0
      else (let u = 2 powi (binade \<bar>x\<bar> - 52) in of_int (roundEven (x / u)) * u))"

text \<open>The operator \<open>/\<close> on two numbers, the divisor not zero.\<close>

definition jsDivide :: "real \<Rightarrow> real \<Rightarrow> real" where
  "jsDivide x y = toDouble (x / y)"

subsection \<open>Subcaucus\<close>

text \<open>
  One entry of a toss log: the identifier of the opponent and whether the toss was won.
\<close>

type_synonym TossLogEntry = "nat \<times> bool"

record Subcaucus =
  id_sub :: nat
  name_sub :: string
  count_sub :: nat
  baseDelegates :: nat
  remainder :: real
  remainderDelegates :: nat
  reportTosses :: bool
  tossLog :: "TossLogEntry list"

text \<open>
  Modelled from the spec: the class \<open>Subcaucus\<close> (Subcaucus.ts) is not among the
  sources, only its uses in Snapshot.ts are. The record above and the five operations
  below follow section 3 and steps 1, 7, 10 and 11 of section 4.2 of the specification.
  In \<open>setViability\<close> the quotient is a quotient of JavaScript numbers; the difference
  of a double and its floor is a double, so the subtraction rounds nothing.
\<close>

definition totalDelegates_sub :: "Subcaucus \<Rightarrow> nat" where
  "totalDelegates_sub s = baseDelegates s + remainderDelegates s"

definition clearDelegateInfo :: "Subcaucus \<Rightarrow> Subcaucus" where
  "clearDelegateInfo s =
     s\<lparr>baseDelegates := 0, remainder := 0, remainderDelegates := 0,
       reportTosses := False, tossLog := []\<rparr>"

definition setViability :: "real \<Rightarrow> Subcaucus \<Rightarrow> Subcaucus" where
  "setViability delegateDivisor s =
     (let q = jsDivide (of_nat (count_sub s)) delegateDivisor
      in s\<lparr>baseDelegates := nat \<lfloor>q\<rfloor>, remainder := q - of_int \<lfloor>q\<rfloor>\<rparr>)"

definition addRemainderDelegate :: "Subcaucus \<Rightarrow> Subcaucus" where
  "addRemainderDelegate s = s\<lparr>remainderDelegates := 1\<rparr>"

definition coinToss :: "bool \<Rightarrow> Subcaucus \<Rightarrow> Subcaucus \<Rightarrow> Subcaucus" where
  "coinToss won opponent s = s\<lparr>tossLog := tossLog s @ [(id_sub opponent, won)]\<rparr>"

subsection \<open>The seeded generator\<close>

text \<open>
  The class \<open>SubCalcPRNG\<close> is not among the sources either. The computation takes it
  as a parameter: \<open>create\<close> is the constructor from a seed, \<open>randomUpTo\<close> draws a number
  for a bound and returns the next state of the generator. Section 4.1 of the
  specification promises a value in \<open>[0, bound)\<close>; that promise is \<open>prng_ok\<close>.
\<close>

record 'g SubCalcPRNG =
  create :: "int \<Rightarrow> 'g"
  randomUpTo :: "'g \<Rightarrow> nat \<Rightarrow> nat \<times> 'g"

definition prng_ok :: "'g SubCalcPRNG \<Rightarrow> bool" where
  "prng_ok P = (\<forall>g m. 0 < m \<longrightarrow> fst (randomUpTo P g m) < m)"

text \<open>
  Modelled from the spec: a linear congruential generator, the example that section 4.1
  names. It is the generator of the concrete runs below.
\<close>

definition lcg :: "nat SubCalcPRNG" where
  "lcg = \<lparr>create = (\<lambda>seed. nat (seed mod 2147483648)),
          randomUpTo = (\<lambda>g m. (let g' = (g * 1103515245 + 12345) mod 2147483648
                                in ((g' div 65536) mod m, g')))\<rparr>"

subsection \<open>Snapshot\<close>

record Snapshot =
  created :: string
  device :: nat
  revised :: string
  revision :: string
  name :: string
  allowed :: nat
  seed :: int
  subcaucuses :: "Subcaucus list"
  participants :: nat
  totalDelegates :: nat
  participantsPerDelegate :: real
  viabilityNumber :: nat
  viableParticipants :: nat
  delegateDivisor :: real

text \<open>
  \<open>subcaucuses\<close> is the list \<open>this.subcaucuses.values()\<close>, in insertion order. The
  array \<open>vSubs\<close> of the source holds references to some of these objects; a reference
  is the position of the object in that list, so an entry of \<open>vSubs\<close> is a pair of a
  position and the current state of the object there.
\<close>

type_synonym SubRef = "nat \<times> Subcaucus"

text \<open>\<open>subs.reduce((acc, sub) => acc + sub.count, 0)\<close>\<close>

definition sumCounts :: "Subcaucus list \<Rightarrow> nat" where
  "sumCounts subs = foldl (\<lambda>acc sub. acc + count_sub sub) 0 subs"

text \<open>\<open>vSubs.reduce((acc, sub) => acc + sub.baseDelegates, 0)\<close>\<close>

definition sumBaseDelegates :: "Subcaucus list \<Rightarrow> nat" where
  "sumBaseDelegates subs = foldl (\<lambda>acc sub. acc + baseDelegates sub) 0 subs"

text \<open>\<open>Array.prototype.indexOf\<close>: the first position of a value, \<open>-1\<close> when absent.\<close>

fun indexOf :: "'a list \<Rightarrow> 'a \<Rightarrow> int" where
  "indexOf [] x = -1"
| "indexOf (y # ys) x =
     (if y = x then 0 else (let r = indexOf ys x in if r < 0 then -1 else r + 1))"

text \<open>
  The shuffle loop \<open>while (m) { i = scRand.randomUpTo(m--); swap vSubRanks[m], vSubRanks[i] }\<close>.
  The second argument is the generator, the third the counter \<open>m\<close>. With a generator
  that keeps its promise, \<open>i\<close> and \<open>m\<close> are positions of the array.
\<close>

fun shuffle :: "'g SubCalcPRNG \<Rightarrow> 'g \<Rightarrow> nat \<Rightarrow> 'a list \<Rightarrow> 'a list \<times> 'g" where
  "shuffle P g 0 v = (v, g)"
| "shuffle P g (Suc m) v =
     (let (i, g') = randomUpTo P g (Suc m);
          temp = v ! m;
          v1 = v[m := v ! i];
          v2 = v1[i := temp]
      in shuffle P g' m v2)"

text \<open>
  The comparison function given to \<open>vSubs.sort\<close>. It returns the sign and the two
  objects, whose toss logs it extends when the remainders are equal.
\<close>

definition compareSubs :: "nat list \<Rightarrow> SubRef \<Rightarrow> SubRef \<Rightarrow> int \<times> SubRef \<times> SubRef" where
  "compareSubs vSubRanks a b =
     (if remainder (snd a) > remainder (snd b) then (-1, a, b)
      else if remainder (snd a) < remainder (snd b) then (1, a, b)
      else
        (let coinFlip = (if indexOf vSubRanks (id_sub (snd a)) < indexOf vSubRanks (id_sub (snd b))
                         then -1 else (1::int));
             a' = apsnd (coinToss (coinFlip = -1) (snd b)) a;
             b' = apsnd (coinToss (coinFlip = 1) (snd a')) b
         in (coinFlip, a', b')))"

text \<open>
  \<open>Array.prototype.sort\<close> is the engine's; which pairs it compares is not fixed by the
  language. It is an insertion sort here: each element is inserted into the sorted
  prefix in front of the first element it compares smaller than.
\<close>

fun insertSub :: "nat list \<Rightarrow> SubRef \<Rightarrow> SubRef list \<Rightarrow> SubRef list" where
  "insertSub vSubRanks x [] = [x]"
| "insertSub vSubRanks x (y # ys) =
     (case compareSubs vSubRanks x y of
        (c, x', y') \<Rightarrow> if c < 0 then x' # y' # ys else y' # insertSub vSubRanks x' ys)"

definition sortSubs :: "nat list \<Rightarrow> SubRef list \<Rightarrow> SubRef list" where
  "sortSubs vSubRanks vSubs = foldl (\<lambda>acc x. insertSub vSubRanks x acc) [] vSubs"

text \<open>
  The state of the walk over the ranked list: the running total \<open>this.totalDelegates\<close>
  and the locals \<open>remainder\<close>, \<open>reportingTo\<close> (a list of references) and
  \<open>justAddedRemainderDelegate\<close>.
\<close>

record WalkState =
  w_totalDelegates :: nat
  w_remainder :: real
  w_reportingTo :: "nat list"
  w_justAdded :: bool

definition walkStep :: "nat \<Rightarrow> WalkState \<Rightarrow> SubRef \<Rightarrow> WalkState \<times> SubRef" where
  "walkStep allowed_n w s =
     (if w_totalDelegates w < allowed_n then
        (let w1 = w\<lparr>w_totalDelegates := w_totalDelegates w + 1, w_justAdded := True\<rparr>;
             s' = apsnd addRemainderDelegate s;
             w2 = (if w_remainder w1 \<noteq> remainder (snd s')
                   then w1\<lparr>w_reportingTo := [], w_remainder := remainder (snd s')\<rparr>
                   else w1)
         in (w2\<lparr>w_reportingTo := w_reportingTo w2 @ [fst s']\<rparr>, s'))
      else
        (let w1 = (if w_remainder w = remainder (snd s)
                   then w\<lparr>w_reportingTo := w_reportingTo w @ [fst s]\<rparr>
                   else (let w' = (if w_justAdded w then w\<lparr>w_reportingTo := []\<rparr> else w)
                         in w'\<lparr>w_remainder := -1\<rparr>))
         in (w1\<lparr>w_justAdded := False\<rparr>, s)))"

fun walk :: "nat \<Rightarrow> WalkState \<Rightarrow> SubRef list \<Rightarrow> WalkState \<times> SubRef list" where
  "walk allowed_n w [] = (w, [])"
| "walk allowed_n w (s # ss) =
     (let (w1, s') = walkStep allowed_n w s;
          (w2, ss') = walk allowed_n w1 ss
      in (w2, s' # ss'))"

text \<open>\<open>reportingTo.forEach((s) => { s.reportTosses = true })\<close>\<close>

definition markReports :: "nat list \<Rightarrow> SubRef list \<Rightarrow> SubRef list" where
  "markReports reportingTo vSubs =
     map (\<lambda>(i, s). (i, if i \<in> set reportingTo then s\<lparr>reportTosses := True\<rparr> else s)) vSubs"

text \<open>
  The objects of \<open>vSubs\<close> are objects of the snapshot: what the computation did to
  them is seen through \<open>this.subcaucuses\<close>.
\<close>

definition writeBack :: "Subcaucus list \<Rightarrow> SubRef list \<Rightarrow> Subcaucus list" where
  "writeBack subs vSubs =
     map (\<lambda>(i, s). case map_of vSubs i of Some s' \<Rightarrow> s' | None \<Rightarrow> s) (enumerate 0 subs)"

text \<open>The viable subcaucuses: \<open>subs.filter((s) => s.count >= this.viabilityNumber)\<close>.\<close>

definition viableSubs :: "nat \<Rightarrow> Subcaucus list \<Rightarrow> SubRef list" where
  "viableSubs vn subs = filter (\<lambda>(i, s). count_sub s \<ge> vn) (enumerate 0 subs)"

text \<open>The list \<open>vSubRanks\<close> after the shuffle.\<close>

definition preRanking :: "'g SubCalcPRNG \<Rightarrow> int \<Rightarrow> SubRef list \<Rightarrow> nat list" where
  "preRanking P seed_n vSubs =
     (let scRand = create P seed_n;
          vSubRanks = map (\<lambda>s. id_sub (snd s)) vSubs
      in fst (shuffle P scRand (length vSubRanks) vSubRanks))"

definition redistributeDelegates :: "'g SubCalcPRNG \<Rightarrow> Snapshot \<Rightarrow> Snapshot" where
  "redistributeDelegates P this =
     (if allowed this = 0 then this
      else
        (let subs = map clearDelegateInfo (subcaucuses this);
             this1 = this\<lparr>subcaucuses := subs, participants := sumCounts subs\<rparr>
         in if participants this1 = 0 then this1
            else
              (let ppd = jsDivide (of_nat (participants this1)) (of_nat (allowed this1));
                   this2 = this1\<lparr>participantsPerDelegate := ppd,
                                 viabilityNumber := nat \<lceil>ppd\<rceil>\<rparr>;
                   vSubs = viableSubs (viabilityNumber this2) subs;
                   this3 = this2\<lparr>viableParticipants := sumCounts (map snd vSubs)\<rparr>
               in if viableParticipants this3 = 0 then this3
                  else
                    (let dd = jsDivide (of_nat (viableParticipants this3)) (of_nat (allowed this3));
                         vSubs1 = map (apsnd (setViability dd)) vSubs;
                         total = sumBaseDelegates (map snd vSubs1);
                         vSubRanks = preRanking P (seed this3) vSubs1;
                         vSubs2 = sortSubs vSubRanks vSubs1;
                         w0 = \<lparr>w_totalDelegates = total, w_remainder = -1,
                               w_reportingTo = [], w_justAdded = False\<rparr>;
                         (w, vSubs3) = walk (allowed this3) w0 vSubs2;
                         vSubs4 = markReports (w_reportingTo w) vSubs3
                     in this3\<lparr>delegateDivisor := dd,
                              totalDelegates := w_totalDelegates w,
                              subcaucuses := writeBack subs vSubs4\<rparr>))))"

text \<open>
  \<open>revise\<close>: the optional fields of the update are options; \<open>now\<close> is the value of
  \<open>_u.now()\<close> at the call. A field is taken over when it is truthy: a non-empty string,
  a number other than zero.
\<close>

record Update =
  u_name :: "string option"
  u_allowed :: "nat option"
  u_seed :: "int option"

definition revise :: "'g SubCalcPRNG \<Rightarrow> string \<Rightarrow> Update option \<Rightarrow> Snapshot \<Rightarrow> Snapshot" where
  "revise P now update this =
     (let this1 = this\<lparr>revised := now, revision := ''''\<rparr>;
          this2 = (case update of
                     None \<Rightarrow> this1
                   | Some u \<Rightarrow>
                       (let t1 = (case u_name u of
                                    Some n \<Rightarrow> if n \<noteq> '''' then this1\<lparr>name := n\<rparr> else this1
                                  | None \<Rightarrow> this1);
                            t2 = (case u_allowed u of
                                    Some a \<Rightarrow> if a \<noteq> 0 then t1\<lparr>allowed := a\<rparr> else t1
                                  | None \<Rightarrow> t1);
                            t3 = (case u_seed u of
                                    Some sd \<Rightarrow> if sd \<noteq> 0 then t2\<lparr>seed := sd\<rparr> else t2
                                  | None \<Rightarrow> t2)
                        in t3))
      in redistributeDelegates P this2)"

text \<open>\<open>clearCounts\<close>: every count is set to zero and the delegates are redistributed.\<close>

definition clearCounts :: "'g SubCalcPRNG \<Rightarrow> string \<Rightarrow> Snapshot \<Rightarrow> Snapshot" where
  "clearCounts P now this =
     redistributeDelegates P
       (this\<lparr>revised := now, revision := '''',
             subcaucuses := map (\<lambda>sub. sub\<lparr>count_sub := 0\<rparr>) (subcaucuses this)\<rparr>)"

subsection \<open>Intermediate values of the computation\<close>

text \<open>
  The values that \<open>redistributeDelegates\<close> computes on the way, as functions of the
  snapshot it is called on: the sum of the counts, the viability number, the array
  \<open>vSubs\<close> after the filter, after \<open>setViability\<close>, after the sort, after the walk and
  at the end, the shuffled \<open>vSubRanks\<close>, and the delegate divisor. The statements below
  speak about the computation through them.
\<close>

definition participantsOf :: "Snapshot \<Rightarrow> nat" where
  "participantsOf this = sumCounts (map clearDelegateInfo (subcaucuses this))"

definition viabilityNumberOf :: "Snapshot \<Rightarrow> nat" where
  "viabilityNumberOf this =
     nat \<lceil>jsDivide (of_nat (participantsOf this)) (of_nat (allowed this))\<rceil>"

definition vSubsViable :: "Snapshot \<Rightarrow> SubRef list" where
  "vSubsViable this = viableSubs (viabilityNumberOf this) (map clearDelegateInfo (subcaucuses this))"

definition viableParticipantsOf :: "Snapshot \<Rightarrow> nat" where
  "viableParticipantsOf this = sumCounts (map snd (vSubsViable this))"

definition delegateDivisorOf :: "Snapshot \<Rightarrow> real" where
  "delegateDivisorOf this = jsDivide (of_nat (viableParticipantsOf this)) (of_nat (allowed this))"

definition vSubsQuota :: "Snapshot \<Rightarrow> SubRef list" where
  "vSubsQuota this = map (apsnd (setViability (delegateDivisorOf this))) (vSubsViable this)"

definition vSubRanksOf :: "'g SubCalcPRNG \<Rightarrow> Snapshot \<Rightarrow> nat list" where
  "vSubRanksOf P this = preRanking P (seed this) (vSubsQuota this)"

definition vSubsRanked :: "'g SubCalcPRNG \<Rightarrow> Snapshot \<Rightarrow> SubRef list" where
  "vSubsRanked P this = sortSubs (vSubRanksOf P this) (vSubsQuota this)"

definition walkOf :: "'g SubCalcPRNG \<Rightarrow> Snapshot \<Rightarrow> WalkState \<times> SubRef list" where
  "walkOf P this =
     walk (allowed this)
       \<lparr>w_totalDelegates = sumBaseDelegates (map snd (vSubsQuota this)), w_remainder = -1,
        w_reportingTo = [], w_justAdded = False\<rparr>
       (vSubsRanked P this)"

definition vSubsFinal :: "'g SubCalcPRNG \<Rightarrow> Snapshot \<Rightarrow> SubRef list" where
  "vSubsFinal P this = markReports (w_reportingTo (fst (walkOf P this))) (snd (walkOf P this))"

text \<open>An entry of \<open>vSubs\<close> without its toss log, the one field that the sort writes.\<close>

definition untoss :: "SubRef \<Rightarrow> SubRef" where
  "untoss e = apsnd (\<lambda>s. s\<lparr>tossLog := []\<rparr>) e"

text \<open>
  The order that the comparison function of the sort decides: the greater remainder
  first, and of two equal remainders the one whose identifier comes first in \<open>vSubRanks\<close>.
\<close>

definition rankedBefore :: "nat list \<Rightarrow> SubRef \<Rightarrow> SubRef \<Rightarrow> bool" where
  "rankedBefore vSubRanks a b =
     (remainder (snd b) < remainder (snd a)
      \<or> (remainder (snd a) = remainder (snd b)
          \<and> indexOf vSubRanks (id_sub (snd a)) < indexOf vSubRanks (id_sub (snd b))))"

subsection \<open>Concrete snapshots\<close>

text \<open>
  A subcaucus and a snapshot as their constructors leave them: the derived fields at
  zero, false and empty.
\<close>

definition newSubcaucus :: "nat \<Rightarrow> nat \<Rightarrow> Subcaucus" where
  "newSubcaucus i c =
     \<lparr>id_sub = i, name_sub = '''', count_sub = c, baseDelegates = 0, remainder = 0,
      remainderDelegates = 0, reportTosses = False, tossLog = []\<rparr>"

definition newSnapshot :: "nat \<Rightarrow> int \<Rightarrow> Subcaucus list \<Rightarrow> Snapshot" where
  "newSnapshot a sd subs =
     \<lparr>created = '''', device = 0, revised = '''', revision = '''', name = '''',
      allowed = a, seed = sd, subcaucuses = subs, participants = 0, totalDelegates = 0,
      participantsPerDelegate = 0, viabilityNumber = 0, viableParticipants = 0,
      delegateDivisor = 0\<rparr>"

text \<open>Scenario A of the specification: five subcaucuses, ten delegates allowed.\<close>

definition scenarioA :: Snapshot where
  "scenarioA =
     newSnapshot 10 1
       [newSubcaucus 1 10, newSubcaucus 2 0, newSubcaucus 3 100, newSubcaucus 4 1,
        newSubcaucus 5 0]"

text \<open>Scenario C of the specification: counts 6 and 4, two delegates allowed.\<close>

definition scenarioC :: Snapshot where
  "scenarioC = newSnapshot 2 1 [newSubcaucus 1 6, newSubcaucus 2 4]"

text \<open>A snapshot with no allotment whose first subcaucus still carries two delegates.\<close>

definition unconfigured :: Snapshot where
  "unconfigured =
     newSnapshot 0 1 [(newSubcaucus 1 6)\<lparr>baseDelegates := 2\<rparr>, newSubcaucus 2 4]"

text \<open>A snapshot with an allotment in which nobody participates.\<close>

definition emptyRoom :: Snapshot where
  "emptyRoom = newSnapshot 2 1 [(newSubcaucus 1 0)\<lparr>baseDelegates := 2\<rparr>]"

text \<open>Two subcaucuses of five members each and three delegates: one seat is left over.\<close>

definition tiedPair :: Snapshot where
  "tiedPair = newSnapshot 3 1 [newSubcaucus 1 5, newSubcaucus 2 5]"

text \<open>The same two subcaucuses, inserted in the other order.\<close>

definition tiedPairSwapped :: Snapshot where
  "tiedPairSwapped = newSnapshot 3 1 [newSubcaucus 2 5, newSubcaucus 1 5]"

text \<open>One subcaucus of nine members and seven delegates.\<close>

definition loneNine :: Snapshot where
  "loneNine = newSnapshot 7 1 [newSubcaucus 1 9]"

text \<open>
  Four delegates for counts 5, 5 and 3: the first two subcaucuses share the four seats
  as base delegates, and tie with remainder zero for no seat.
\<close>

definition quietTie :: Snapshot where
  "quietTie = newSnapshot 4 1 [newSubcaucus 1 5, newSubcaucus 2 5, newSubcaucus 3 3]"

text \<open>
  Seven delegates for counts 13, 21, 21 and 9: the fourth subcaucus is not viable, and
  the second and third tie for two seats that both receive.
\<close>

definition harmlessTie :: Snapshot where
  "harmlessTie =
     newSnapshot 7 1 [newSubcaucus 1 13, newSubcaucus 2 21, newSubcaucus 3 21, newSubcaucus 4 9]"

text \<open>An update of the allotment to one delegate.\<close>

definition oneSeat :: Update where
  "oneSeat = \<lparr>u_name = None, u_allowed = Some 1, u_seed = None\<rparr>"

text \<open>An update whose three fields are all falsy.\<close>

definition falsyUpdate :: Update where
  "falsyUpdate = \<lparr>u_name = Some '''', u_allowed = Some 0, u_seed = Some 0\<rparr>"

section \<open>Properties\<close>

subsection \<open>Basic facts\<close>

lemma foldl_add_sum_list:
  "foldl (\<lambda>acc sub. acc + f sub) (a::nat) xs = a + sum_list (map f xs)"
  by (induction xs arbitrary: a) (simp_all add: add.assoc)

lemma sumCounts_sum_list: "sumCounts subs = sum_list (map count_sub subs)"
  by (simp add: sumCounts_def foldl_add_sum_list)

lemma sumBaseDelegates_sum_list: "sumBaseDelegates subs = sum_list (map baseDelegates subs)"
  by (simp add: sumBaseDelegates_def foldl_add_sum_list)

lemma clearDelegateInfo_idem [simp]:
  "clearDelegateInfo (clearDelegateInfo s) = clearDelegateInfo s"
  by (simp add: clearDelegateInfo_def)

lemma clearDelegateInfo_fields [simp]:
  "id_sub (clearDelegateInfo s) = id_sub s"
  "name_sub (clearDelegateInfo s) = name_sub s"
  "count_sub (clearDelegateInfo s) = count_sub s"
  "baseDelegates (clearDelegateInfo s) = 0"
  "remainder (clearDelegateInfo s) = 0"
  "remainderDelegates (clearDelegateInfo s) = 0"
  "reportTosses (clearDelegateInfo s) = False"
  "tossLog (clearDelegateInfo s) = []"
  by (simp_all add: clearDelegateInfo_def)

lemma addRemainderDelegate_fields [simp]:
  "id_sub (addRemainderDelegate s) = id_sub s"
  "name_sub (addRemainderDelegate s) = name_sub s"
  "count_sub (addRemainderDelegate s) = count_sub s"
  "baseDelegates (addRemainderDelegate s) = baseDelegates s"
  "remainder (addRemainderDelegate s) = remainder s"
  "remainderDelegates (addRemainderDelegate s) = 1"
  "reportTosses (addRemainderDelegate s) = reportTosses s"
  "tossLog (addRemainderDelegate s) = tossLog s"
  by (simp_all add: addRemainderDelegate_def)

lemma sumCounts_clear [simp]: "sumCounts (map clearDelegateInfo subs) = sumCounts subs"
  by (simp add: sumCounts_sum_list comp_def)

text \<open>The computation writes none of the fields that identify or configure the snapshot.\<close>

lemma redistributeDelegates_frame:
  "created (redistributeDelegates P s) = created s"
  "device (redistributeDelegates P s) = device s"
  "revised (redistributeDelegates P s) = revised s"
  "revision (redistributeDelegates P s) = revision s"
  "name (redistributeDelegates P s) = name s"
  "allowed (redistributeDelegates P s) = allowed s"
  "seed (redistributeDelegates P s) = seed s"
  by (simp_all add: redistributeDelegates_def Let_def split: prod.splits)

subsection \<open>Rounding to a double\<close>

lemma binade_bounds:
  "0 < x \<Longrightarrow> 2 powi (binade x) \<le> x \<and> x < 2 powi (binade x + 1)"
proof (induction x rule: binade.induct)
  case (1 x)
  show ?case
  proof (cases "2 \<le> x")
    case True
    with 1 have IH: "2 powi (binade (x / 2)) \<le> x / 2 \<and> x / 2 < 2 powi (binade (x / 2) + 1)"
      by simp
    have b: "binade x = binade (x / 2) + 1"
      using True 1(3) by (subst binade.simps) simp
    from IH show ?thesis unfolding b by (simp add: power_int_add)
  next
    case False
    show ?thesis
    proof (cases "x < 1")
      case True
      with 1 False have IH: "2 powi (binade (x * 2)) \<le> x * 2 \<and> x * 2 < 2 powi (binade (x * 2) + 1)"
        by simp
      have b: "binade x = binade (x * 2) - 1"
        using True False 1(3) by (subst binade.simps) simp
      from IH show ?thesis unfolding b by (simp add: power_int_add power_int_diff)
    next
      case x1: False
      have b: "binade x = 0"
        using x1 False 1(3) by (subst binade.simps) simp
      from x1 False show ?thesis unfolding b by simp
    qed
  qed
qed

lemma binade_unique:
  assumes x: "0 < x" and lo: "2 powi e \<le> x" and hi: "x < 2 powi (e + 1)"
  shows "binade x = e"
proof (rule ccontr)
  assume ne: "binade x \<noteq> e"
  note b = binade_bounds [OF x]
  show False
  proof (cases "binade x < e")
    case True
    then have "(2::real) powi (binade x + 1) \<le> 2 powi e"
      by (intro power_int_increasing) simp_all
    with b lo show False by linarith
  next
    case False
    with ne have "e + 1 \<le> binade x" by simp
    then have "(2::real) powi (e + 1) \<le> 2 powi binade x"
      by (intro power_int_increasing) simp_all
    with b hi show False by linarith
  qed
qed

lemma roundEven_error: "\<bar>of_int (roundEven y) - y\<bar> \<le> 1 / 2"
proof -
  have "of_int \<lfloor>y\<rfloor> \<le> y" "y < of_int \<lfloor>y\<rfloor> + 1" by linarith+
  then show ?thesis
    by (auto simp add: roundEven_def Let_def)
qed

text \<open>Rounding to a double changes a number by at most the fraction \<open>1 / 2 ^ 53\<close> of it.\<close>

lemma toDouble_error: "\<bar>toDouble x - x\<bar> \<le> \<bar>x\<bar> / 2 ^ 53"
proof (cases "x = 0")
  case True
  then show ?thesis by (simp add: toDouble_def)
next
  case False
  define e where "e = binade \<bar>x\<bar>"
  define u :: real where "u = 2 powi (e - 52)"
  have u0: "0 < u" by (simp add: u_def)
  from False have "0 < \<bar>x\<bar>" by simp
  from binade_bounds [OF this] have lo: "2 powi e \<le> \<bar>x\<bar>" by (simp add: e_def)
  have "2 powi e = u * 2 ^ 52"
    by (simp add: u_def power_int_diff)
  with lo have ux: "u * 2 ^ 52 \<le> \<bar>x\<bar>" by simp
  have t: "toDouble x = of_int (roundEven (x / u)) * u"
    using False by (simp add: toDouble_def Let_def u_def e_def)
  have "\<bar>toDouble x - x\<bar> = \<bar>of_int (roundEven (x / u)) - x / u\<bar> * u"
  proof -
    have "toDouble x - x = (of_int (roundEven (x / u)) - x / u) * u"
      using u0 by (simp add: t field_simps)
    then show ?thesis using u0 by (simp add: abs_mult)
  qed
  also have "\<dots> \<le> 1 / 2 * u"
    using roundEven_error [of "x / u"] u0 by (intro mult_right_mono) simp_all
  also have "\<dots> \<le> \<bar>x\<bar> / 2 ^ 53"
    using ux by simp
  finally show ?thesis .
qed

lemma toDouble_pos:
  assumes "0 < x"
  shows "0 < toDouble x"
proof -
  have "\<bar>toDouble x - x\<bar> \<le> x / 2 ^ 53"
    using toDouble_error [of x] assms by simp
  moreover have "x / 2 ^ 53 < x" using assms by simp
  ultimately show ?thesis by linarith
qed

lemma toDouble_nonneg:
  assumes "0 \<le> x"
  shows "0 \<le> toDouble x"
proof (cases "x = 0")
  case True
  then show ?thesis by (simp add: toDouble_def)
next
  case False
  with assms toDouble_pos [of x] show ?thesis by simp
qed

text \<open>The double nearest to a number whose binary exponent is known.\<close>

lemma toDouble_eval:
  fixes k :: nat
  assumes lo: "2 ^ 52 \<le> \<bar>x\<bar> * 2 ^ k" and hi: "\<bar>x\<bar> * 2 ^ k < 2 ^ 53"
  shows "toDouble x = of_int (roundEven (x * 2 ^ k)) / 2 ^ k"
proof -
  have x0: "x \<noteq> 0" using lo by auto
  then have pos: "0 < \<bar>x\<bar>" by simp
  have p: "(2::real) powi (52 - int k) = 2 ^ 52 / 2 ^ k"
    by (simp add: power_int_diff)
  have q: "(2::real) powi (52 - int k + 1) = 2 ^ 53 / 2 ^ k"
    by (simp add: power_int_diff power_int_add)
  have "binade \<bar>x\<bar> = 52 - int k"
  proof (rule binade_unique [OF pos])
    show "2 powi (52 - int k) \<le> \<bar>x\<bar>"
      unfolding p using lo by (simp add: field_simps)
    show "\<bar>x\<bar> < 2 powi (52 - int k + 1)"
      unfolding q using hi by (simp add: field_simps)
  qed
  then have "(2::real) powi (binade \<bar>x\<bar> - 52) = 1 / 2 ^ k"
    by (simp add: power_int_minus_divide)
  with x0 show ?thesis by (simp add: toDouble_def Let_def)
qed

lemma jsDivide_zero: "jsDivide 0 y = 0"
  by (simp add: jsDivide_def toDouble_def)

text \<open>An integer below \<open>2 ^ 53\<close> is a double.\<close>

lemma roundEven_of_int: "roundEven (of_int m) = m"
  by (simp add: roundEven_def)

lemma toDouble_of_int:
  assumes "\<bar>n\<bar> < 2 ^ 53"
  shows "toDouble (of_int n) = of_int n"
proof (cases "n = 0")
  case True
  then show ?thesis by (simp add: toDouble_def)
next
  case False
  define x :: real where "x = \<bar>of_int n\<bar>"
  have "1 \<le> \<bar>n\<bar>" using False by simp
  then have "(1::real) \<le> of_int \<bar>n\<bar>" by (simp only: of_int_1_le_iff)
  then have x1: "1 \<le> x" by (simp add: x_def)
  have "(of_int \<bar>n\<bar> :: real) < of_int (2 ^ 53)" using assms by (simp only: of_int_less_iff)
  then have x53: "x < 2 ^ 53" by (simp add: x_def)
  define e where "e = binade x"
  have "0 < x" using x1 by simp
  from binade_bounds [OF this] have lo: "2 powi e \<le> x" and hi: "x < 2 powi (e + 1)"
    by (simp_all add: e_def)
  have e0: "0 \<le> e"
  proof (rule ccontr)
    assume "\<not> 0 \<le> e"
    then have "(2::real) powi (e + 1) \<le> 2 powi 0"
      by (intro power_int_increasing) simp_all
    with hi x1 show False by simp
  qed
  have e52: "e \<le> 52"
  proof (rule ccontr)
    assume "\<not> e \<le> 52"
    then have "(2::real) powi 53 \<le> 2 powi e"
      by (intro power_int_increasing) simp_all
    with lo x53 show False by simp
  qed
  define j where "j = nat (52 - e)"
  have "e - 52 = - int j" using e52 by (simp add: j_def)
  then have u: "(2::real) powi (e - 52) = 1 / 2 ^ j"
    by (simp add: power_int_minus_divide)
  have "of_int n / (1 / 2 ^ j) = (of_int (n * 2 ^ j) :: real)" by simp
  then have "roundEven (of_int n / (1 / 2 ^ j)) = n * 2 ^ j"
    by (simp only: roundEven_of_int)
  then show ?thesis
    using False by (simp add: toDouble_def Let_def u e_def [symmetric] x_def [symmetric])
qed

text \<open>
  The ceiling of a quotient of natural numbers survives the rounding, as long as the
  dividend is below \<open>2 ^ 53\<close>.
\<close>

lemma ceiling_jsDivide:
  fixes p a :: nat
  assumes a: "0 < a" and p: "p < 2 ^ 53"
  shows "\<lceil>jsDivide (real p) (real a)\<rceil> = \<lceil>real p / real a\<rceil>"
proof (cases "a dvd p")
  case True
  then obtain k where k: "p = a * k" ..
  then have q: "real p / real a = real_of_int (int k)" using a by simp
  have "k \<le> p" using k a by simp
  with p have "int k < 2 ^ 53" by simp
  then have "\<bar>int k\<bar> < 2 ^ 53" by simp
  from toDouble_of_int [OF this] show ?thesis
    unfolding jsDivide_def q by simp
next
  case False
  let ?x = "real p / real a"
  let ?k = "\<lceil>?x\<rceil>"
  have ne: "?x \<noteq> of_int ?k"
  proof
    assume "?x = of_int ?k"
    then have "real p = of_int ?k * real a" using a by (simp add: field_simps)
    then have "real_of_int (int p) = real_of_int (?k * int a)" by simp
    then have eq: "int p = ?k * int a" by (simp only: of_int_eq_iff)
    then have "int a dvd int p" by simp
    with False show False by (simp only: int_dvd_int_iff)
  qed
  have "?x \<le> of_int ?k" by (rule le_of_int_ceiling)
  with ne have up: "?x < of_int ?k" by (simp only: less_le simp_thms)
  have dn: "of_int ?k - 1 < ?x" by linarith
  have up': "?x + 1 / real a \<le> of_int ?k"
  proof -
    from up have "real p < of_int ?k * real a" using a by (simp add: field_simps)
    then have "real_of_int (int p) < real_of_int (?k * int a)" by simp
    then have "int p < ?k * int a" by (simp only: of_int_less_iff)
    then have "int p + 1 \<le> ?k * int a" by simp
    then have "real_of_int (int p + 1) \<le> real_of_int (?k * int a)" by (simp only: of_int_le_iff)
    then have "real p + 1 \<le> of_int ?k * real a" by simp
    then have "(real p + 1) / real a \<le> of_int ?k * real a / real a"
      by (intro divide_right_mono) simp_all
    then show ?thesis using a by (simp add: add_divide_distrib)
  qed
  have dn': "of_int ?k - 1 + 1 / real a \<le> ?x"
  proof -
    from dn have "(of_int ?k - 1) * real a < real p" using a by (simp add: field_simps)
    then have "real_of_int ((?k - 1) * int a) < real_of_int (int p)" by simp
    then have "(?k - 1) * int a < int p" by (simp only: of_int_less_iff)
    then have "(?k - 1) * int a + 1 \<le> int p" by simp
    then have "real_of_int ((?k - 1) * int a + 1) \<le> real_of_int (int p)"
      by (simp only: of_int_le_iff)
    then have "(of_int ?k - 1) * real a + 1 \<le> real p" by simp
    then have "((of_int ?k - 1) * real a + 1) / real a \<le> real p / real a"
      by (intro divide_right_mono) simp_all
    moreover have "((of_int ?k - 1) * real a + 1) / real a = of_int ?k - 1 + 1 / real a"
      using a by (simp add: add_divide_distrib)
    ultimately show ?thesis by simp
  qed
  have "\<bar>toDouble ?x - ?x\<bar> \<le> ?x / 2 ^ 53"
    using toDouble_error [of ?x] by simp
  moreover have "?x / 2 ^ 53 < 1 / real a"
  proof -
    have "real p < 2 ^ 53" using p by (metis of_nat_less_numeral_power_cancel_iff)
    then have "real p / 2 ^ 53 < 1" by simp
    then have "real p / 2 ^ 53 / real a < 1 / real a"
      using a by (intro divide_strict_right_mono) simp_all
    then show ?thesis by (simp add: field_simps)
  qed
  ultimately have "\<bar>toDouble ?x - ?x\<bar> < 1 / real a" by linarith
  then have "toDouble ?x - ?x < 1 / real a" "?x - toDouble ?x < 1 / real a"
    by (simp_all add: abs_less_iff)
  with up' dn' have "of_int ?k - 1 < toDouble ?x" "toDouble ?x \<le> of_int ?k"
    by linarith+
  then show ?thesis
    unfolding jsDivide_def by (intro ceiling_unique) simp_all
qed

lemma jsDivide_bounds:
  assumes "0 \<le> x" and "0 < y"
  shows "x / y * (1 - 1 / 2 ^ 53) \<le> jsDivide x y" and "jsDivide x y \<le> x / y * (1 + 1 / 2 ^ 53)"
proof -
  have "0 \<le> x / y" using assms by simp
  then have "\<bar>toDouble (x / y) - x / y\<bar> \<le> x / y / 2 ^ 53"
    using toDouble_error [of "x / y"] by simp
  then show "x / y * (1 - 1 / 2 ^ 53) \<le> jsDivide x y"
    and "jsDivide x y \<le> x / y * (1 + 1 / 2 ^ 53)"
    unfolding jsDivide_def by (simp_all add: abs_le_iff algebra_simps)
qed

lemma jsDivide_pos: "0 < x \<Longrightarrow> 0 < y \<Longrightarrow> 0 < jsDivide x y"
  unfolding jsDivide_def by (rule toDouble_pos) simp

lemma jsDivide_nonneg: "0 \<le> x \<Longrightarrow> 0 < y \<Longrightarrow> 0 \<le> jsDivide x y"
  unfolding jsDivide_def by (rule toDouble_nonneg) simp

text \<open>
  The quotient of a count and the delegate divisor, after its two roundings, differs
  from the exact quota by at most the fraction \<open>1 / 2 ^ 51\<close> of it.
\<close>

lemma quota_error:
  fixes c A V :: nat
  assumes A: "0 < A" and V: "0 < V"
  shows "\<bar>jsDivide (real c) (jsDivide (real V) (real A)) - real c * real A / real V\<bar>
         \<le> real c * real A / real V / 2 ^ 51"
proof -
  define d where "d = real V / real A"
  define dt where "dt = jsDivide (real V) (real A)"
  define q where "q = real c / d"
  define qt where "qt = jsDivide (real c) dt"
  have d0: "0 < d" using A V by (simp add: d_def)
  have dt_lo: "d * (1 - 1 / 2 ^ 53) \<le> dt" and dt_hi: "dt \<le> d * (1 + 1 / 2 ^ 53)"
    using jsDivide_bounds [of "real V" "real A"] A by (simp_all add: d_def dt_def)
  have lo0: "0 < d * (1 - 1 / 2 ^ 53)" using d0 by simp
  then have dt0: "0 < dt" using dt_lo by linarith
  have q0: "0 \<le> q" using d0 by (simp add: q_def)
  have y_hi: "real c / dt \<le> q / (1 - 1 / 2 ^ 53)"
  proof -
    have "real c / dt \<le> real c / (d * (1 - 1 / 2 ^ 53))"
      using dt_lo lo0 by (intro divide_left_mono) (simp_all add: dt0)
    then show ?thesis by (simp add: q_def)
  qed
  have y_lo: "q / (1 + 1 / 2 ^ 53) \<le> real c / dt"
  proof -
    have "real c / (d * (1 + 1 / 2 ^ 53)) \<le> real c / dt"
      using dt_hi dt0 d0 by (intro divide_left_mono) simp_all
    then show ?thesis by (simp add: q_def)
  qed
  have y0: "0 \<le> real c / dt" using dt0 by simp
  have qt_hi: "qt \<le> q * (1 + 1 / 2 ^ 51)"
  proof -
    have "qt \<le> real c / dt * (1 + 1 / 2 ^ 53)"
      using jsDivide_bounds(2) [of "real c" dt] dt0 by (simp add: qt_def)
    also have "\<dots> \<le> q / (1 - 1 / 2 ^ 53) * (1 + 1 / 2 ^ 53)"
      using y_hi by (intro mult_right_mono) simp_all
    also have "\<dots> = q * ((1 + 1 / 2 ^ 53) / (1 - 1 / 2 ^ 53))" by simp
    also have "\<dots> \<le> q * (1 + 1 / 2 ^ 51)"
      using q0 by (intro mult_left_mono) simp_all
    finally show ?thesis .
  qed
  have qt_lo: "q * (1 - 1 / 2 ^ 51) \<le> qt"
  proof -
    have "q * (1 - 1 / 2 ^ 51) \<le> q * ((1 - 1 / 2 ^ 53) / (1 + 1 / 2 ^ 53))"
      using q0 by (intro mult_left_mono) simp_all
    also have "\<dots> = q / (1 + 1 / 2 ^ 53) * (1 - 1 / 2 ^ 53)" by simp
    also have "\<dots> \<le> real c / dt * (1 - 1 / 2 ^ 53)"
      using y_lo by (intro mult_right_mono) simp_all
    also have "\<dots> \<le> qt"
      using jsDivide_bounds(1) [of "real c" dt] dt0 by (simp add: qt_def)
    finally show ?thesis .
  qed
  have "qt - q \<le> q / 2 ^ 51" "q - qt \<le> q / 2 ^ 51"
    using qt_hi qt_lo by (simp_all add: algebra_simps)
  then have "\<bar>qt - q\<bar> \<le> q / 2 ^ 51"
    by (simp only: abs_le_iff minus_diff_eq)
  moreover have "q = real c * real A / real V" using A V by (simp add: q_def d_def)
  ultimately show ?thesis by (simp add: qt_def dt_def)
qed

text \<open>The quotients of the concrete runs below.\<close>

lemma jsDivide_111_10: "jsDivide 111 10 = 6248744482976563 / 562949953421312"
  unfolding jsDivide_def
  by (subst toDouble_eval [where k = 49]) (simp_all add: roundEven_def Let_def)

lemma jsDivide_100_10: "jsDivide 100 10 = 10"
  unfolding jsDivide_def
  by (subst toDouble_eval [where k = 49]) (simp_all add: roundEven_def Let_def)

lemma jsDivide_10_2: "jsDivide 10 2 = 5"
  unfolding jsDivide_def
  by (subst toDouble_eval [where k = 50]) (simp_all add: roundEven_def Let_def)

lemma jsDivide_6_2: "jsDivide 6 2 = 3"
  unfolding jsDivide_def
  by (subst toDouble_eval [where k = 51]) (simp_all add: roundEven_def Let_def)

lemma jsDivide_6_3: "jsDivide 6 3 = 2"
  unfolding jsDivide_def
  by (subst toDouble_eval [where k = 51]) (simp_all add: roundEven_def Let_def)

lemma jsDivide_10_1: "jsDivide 10 1 = 10"
  unfolding jsDivide_def
  by (subst toDouble_eval [where k = 49]) (simp_all add: roundEven_def Let_def)

lemma jsDivide_10_3: "jsDivide 10 3 = 7505999378950827 / 2251799813685248"
  unfolding jsDivide_def
  by (subst toDouble_eval [where k = 51]) (simp_all add: roundEven_def Let_def)

lemma jsDivide_5_10_3: "jsDivide 5 (7505999378950827 / 2251799813685248) = 3 / 2"
  unfolding jsDivide_def
  by (subst toDouble_eval [where k = 52]) (simp_all add: roundEven_def Let_def)

lemma jsDivide_9_7: "jsDivide 9 7 = 5790342378047781 / 4503599627370496"
  unfolding jsDivide_def
  by (subst toDouble_eval [where k = 52]) (simp_all add: roundEven_def Let_def)

lemma jsDivide_9_9_7: "jsDivide 9 (5790342378047781 / 4503599627370496) = 7881299347898367 / 1125899906842624"
  unfolding jsDivide_def
  by (subst toDouble_eval [where k = 50]) (simp_all add: roundEven_def Let_def)

lemma jsDivide_13_4: "jsDivide 13 4 = 13 / 4"
  unfolding jsDivide_def
  by (subst toDouble_eval [where k = 51]) (simp_all add: roundEven_def Let_def)

lemma jsDivide_10_4: "jsDivide 10 4 = 5 / 2"
  unfolding jsDivide_def
  by (subst toDouble_eval [where k = 51]) (simp_all add: roundEven_def Let_def)

lemma jsDivide_5_10_4: "jsDivide 5 (5 / 2) = 2"
  unfolding jsDivide_def
  by (subst toDouble_eval [where k = 51]) (simp_all add: roundEven_def Let_def)

lemma jsDivide_64_7: "jsDivide 64 7 = 2573485501354569 / 281474976710656"
  unfolding jsDivide_def
  by (subst toDouble_eval [where k = 49]) (simp_all add: roundEven_def Let_def)

lemma jsDivide_55_7: "jsDivide 55 7 = 8846356410906331 / 1125899906842624"
  unfolding jsDivide_def
  by (subst toDouble_eval [where k = 50]) (simp_all add: roundEven_def Let_def)

lemma jsDivide_13_55_7: "jsDivide 13 (8846356410906331 / 1125899906842624) = 7451410292558457 / 4503599627370496"
  unfolding jsDivide_def
  by (subst toDouble_eval [where k = 52]) (simp_all add: roundEven_def Let_def)

lemma jsDivide_21_55_7: "jsDivide 21 (8846356410906331 / 1125899906842624) = 3009223387379377 / 1125899906842624"
  unfolding jsDivide_def
  by (subst toDouble_eval [where k = 51]) (simp_all add: roundEven_def Let_def)

lemmas quotient_facts =
  jsDivide_111_10 jsDivide_100_10 jsDivide_10_2 jsDivide_6_2 jsDivide_6_3
  jsDivide_10_1 jsDivide_10_3 jsDivide_5_10_3 jsDivide_9_7 jsDivide_9_9_7
  jsDivide_13_4 jsDivide_10_4 jsDivide_5_10_4 jsDivide_64_7 jsDivide_55_7
  jsDivide_13_55_7 jsDivide_21_55_7

text \<open>The shuffle loop at a counter that is a numeral.\<close>

lemma shuffle_numeral:
  "shuffle P g (numeral k) v =
     (let (i, g') = randomUpTo P g (numeral k);
          m = pred_numeral k;
          temp = v ! m;
          v1 = v[m := v ! i];
          v2 = v1[i := temp]
      in shuffle P g' m v2)"
  by (simp add: numeral_eq_Suc Let_def)

text \<open>The first four draws of the generator \<open>lcg\<close> seeded with 1, for any bounds.\<close>

lemma lcg_create_1: "create lcg 1 = Suc 0"
  by (simp add: lcg_def)

lemma lcg_draw_1: "randomUpTo lcg (Suc 0) m = (16838 mod m, 1103527590)"
  by (simp add: lcg_def Let_def)

lemma lcg_draw_2: "randomUpTo lcg 1103527590 m = (5758 mod m, 377401575)"
  by (simp add: lcg_def Let_def)

lemma lcg_draw_3: "randomUpTo lcg 377401575 m = (10113 mod m, 662824084)"
  by (simp add: lcg_def Let_def)

lemma lcg_draw_4: "randomUpTo lcg 662824084 m = (17515 mod m, 1147902781)"
  by (simp add: lcg_def Let_def)

text \<open>The unfolding that evaluates the computation on a concrete snapshot.\<close>

lemmas run_defs =
  redistributeDelegates_def newSnapshot_def newSubcaucus_def Let_def
  sumCounts_sum_list sumBaseDelegates_sum_list clearDelegateInfo_def viableSubs_def
  setViability_def preRanking_def sortSubs_def compareSubs_def
  walkStep_def markReports_def writeBack_def addRemainderDelegate_def coinToss_def
  numeral_2_eq_2 [symmetric] numeral_3_eq_3 [symmetric] shuffle_numeral
  lcg_create_1 lcg_draw_1 lcg_draw_2 lcg_draw_3 lcg_draw_4 quotient_facts

lemmas stage_defs =
  participantsOf_def viabilityNumberOf_def vSubsViable_def viableParticipantsOf_def
  delegateDivisorOf_def vSubsQuota_def vSubRanksOf_def vSubsRanked_def walkOf_def
  vSubsFinal_def

subsection \<open>The parts of the computation\<close>

lemma viableSubs_mem:
  "(i, s) \<in> set (viableSubs vn subs) \<longleftrightarrow> i < length subs \<and> s = subs ! i \<and> vn \<le> count_sub s"
  by (auto simp add: viableSubs_def in_set_enumerate_eq)

lemma viableSubs_distinct: "distinct (map fst (viableSubs vn subs))"
  unfolding viableSubs_def
  by (rule distinct_map_filter) simp

lemma viableSubs_snd: "map snd (viableSubs vn subs) = filter (\<lambda>s. vn \<le> count_sub s) subs"
proof -
  have "map snd (filter (\<lambda>(i, s). vn \<le> count_sub s) (enumerate n subs))
        = filter (\<lambda>s. vn \<le> count_sub s) subs" for n
    by (induction subs arbitrary: n) simp_all
  then show ?thesis by (simp add: viableSubs_def)
qed

lemma writeBack_length [simp]: "length (writeBack subs vs) = length subs"
  by (simp add: writeBack_def)

lemma writeBack_nth:
  "i < length subs \<Longrightarrow>
   writeBack subs vs ! i = (case map_of vs i of Some s' \<Rightarrow> s' | None \<Rightarrow> subs ! i)"
  by (simp add: writeBack_def nth_enumerate_eq)

lemma writeBack_nth_in:
  "distinct (map fst vs) \<Longrightarrow> (i, s') \<in> set vs \<Longrightarrow> i < length subs \<Longrightarrow> writeBack subs vs ! i = s'"
  by (simp add: writeBack_nth)

lemma writeBack_nth_out:
  "i \<notin> fst ` set vs \<Longrightarrow> i < length subs \<Longrightarrow> writeBack subs vs ! i = subs ! i"
proof -
  assume "i \<notin> fst ` set vs" and i: "i < length subs"
  then have "map_of vs i = None" by (simp add: map_of_eq_None_iff)
  with i show ?thesis by (simp add: writeBack_nth)
qed

lemma writeBack_sum:
  fixes f :: "Subcaucus \<Rightarrow> nat"
  assumes d: "distinct (map fst vs)"
    and k: "fst ` set vs \<subseteq> {..<length subs}"
    and z: "\<And>i. i < length subs \<Longrightarrow> i \<notin> fst ` set vs \<Longrightarrow> f (subs ! i) = 0"
  shows "sum_list (map f (writeBack subs vs)) = sum_list (map (\<lambda>e. f (snd e)) vs)"
proof -
  have "sum_list (map f (writeBack subs vs)) = (\<Sum>i<length subs. f (writeBack subs vs ! i))"
    by (simp add: sum_list_sum_nth atLeast0LessThan)
  also have "\<dots> = (\<Sum>i\<in>fst ` set vs. f (writeBack subs vs ! i))"
    using k z by (intro sum.mono_neutral_right) (auto simp add: writeBack_nth_out)
  also have "\<dots> = (\<Sum>e\<in>set vs. f (writeBack subs vs ! fst e))"
    using d by (subst sum.reindex) (auto simp add: distinct_map)
  also have "\<dots> = (\<Sum>e\<in>set vs. f (snd e))"
  proof (rule sum.cong)
    fix e assume "e \<in> set vs"
    then show "f (writeBack subs vs ! fst e) = f (snd e)"
      using d k writeBack_nth_in [of vs "fst e" "snd e" subs] by auto
  qed simp
  also have "\<dots> = sum_list (map (\<lambda>e. f (snd e)) vs)"
    using d by (simp add: sum_list_distinct_conv_sum_set distinct_map)
  finally show ?thesis .
qed

lemma untoss_coinToss [simp]: "untoss (apsnd (coinToss won opp) e) = untoss e"
  by (cases e) (simp add: untoss_def coinToss_def)

lemma compareSubs_untoss:
  assumes "compareSubs r a b = (c, a', b')"
  shows "untoss a' = untoss a" and "untoss b' = untoss b"
  using assms by (auto simp add: compareSubs_def Let_def split: if_splits)

lemma insertSub_mset:
  "image_mset untoss (mset (insertSub r x ys)) = image_mset untoss (mset (x # ys))"
proof (induction ys arbitrary: x)
  case Nil
  show ?case by simp
next
  case (Cons y ys)
  obtain c x' y' where c: "compareSubs r x y = (c, x', y')"
    by (cases "compareSubs r x y") auto
  from compareSubs_untoss [OF c] Cons.IH [of x'] show ?case
    by (simp add: c)
qed

lemma foldl_insertSub_mset:
  "image_mset untoss (mset (foldl (\<lambda>acc x. insertSub r x acc) acc xs))
   = image_mset untoss (mset acc) + image_mset untoss (mset xs)"
  by (induction xs arbitrary: acc) (simp_all add: insertSub_mset)

lemma sortSubs_mset: "image_mset untoss (mset (sortSubs r xs)) = image_mset untoss (mset xs)"
  by (simp add: sortSubs_def foldl_insertSub_mset)

lemma untoss_fields [simp]:
  "fst (untoss e) = fst e"
  "id_sub (snd (untoss e)) = id_sub (snd e)"
  "name_sub (snd (untoss e)) = name_sub (snd e)"
  "count_sub (snd (untoss e)) = count_sub (snd e)"
  "baseDelegates (snd (untoss e)) = baseDelegates (snd e)"
  "remainder (snd (untoss e)) = remainder (snd e)"
  "remainderDelegates (snd (untoss e)) = remainderDelegates (snd e)"
  "reportTosses (snd (untoss e)) = reportTosses (snd e)"
  by (cases e, simp add: untoss_def)+

text \<open>Any function of an entry that does not read the toss log has the same values over the
  sorted list as over the unsorted one.\<close>

lemma image_mset_untoss_proj:
  assumes f: "\<And>e. f (untoss e) = f e"
    and eq: "image_mset untoss M = image_mset untoss N"
  shows "image_mset f M = image_mset f N"
proof -
  have "image_mset f K = image_mset f (image_mset untoss K)" for K
    by (simp add: multiset.map_comp comp_def f)
  with eq show ?thesis by metis
qed

lemma sortSubs_mset_proj:
  assumes "\<And>e. f (untoss e) = f e"
  shows "image_mset f (mset (sortSubs r xs)) = image_mset f (mset xs)"
  using assms sortSubs_mset by (rule image_mset_untoss_proj)

lemma insertSub_mset_proj:
  assumes "\<And>e. f (untoss e) = f e"
  shows "image_mset f (mset (insertSub r x ys)) = image_mset f (mset (x # ys))"
  using assms insertSub_mset by (rule image_mset_untoss_proj)

lemma sortSubs_fst: "mset (map fst (sortSubs r xs)) = mset (map fst xs)"
  using sortSubs_mset_proj [of fst r xs] by simp

lemma sortSubs_length [simp]: "length (sortSubs r xs) = length xs"
  using sortSubs_fst [of r xs] by (metis length_map size_mset)

text \<open>The sorted list is in descending order of remainder.\<close>

lemma compareSubs_sign:
  assumes "compareSubs r a b = (c, a', b')"
  shows "c < 0 \<Longrightarrow> remainder (snd b) \<le> remainder (snd a)"
    and "\<not> c < 0 \<Longrightarrow> remainder (snd a) \<le> remainder (snd b)"
  using assms by (auto simp add: compareSubs_def Let_def split: if_splits)

lemma compareSubs_remainder:
  assumes "compareSubs r a b = (c, a', b')"
  shows "remainder (snd a') = remainder (snd a)" and "remainder (snd b') = remainder (snd b)"
  using compareSubs_untoss [OF assms] by (metis untoss_fields(6))+

lemma insertSub_sorted:
  assumes "sorted_wrt (\<lambda>a b. remainder (snd b) \<le> remainder (snd a)) ys"
  shows "sorted_wrt (\<lambda>a b. remainder (snd b) \<le> remainder (snd a)) (insertSub r x ys)"
  using assms
proof (induction ys arbitrary: x)
  case Nil
  show ?case by simp
next
  case (Cons y ys)
  obtain c x' y' where c: "compareSubs r x y = (c, x', y')"
    by (cases "compareSubs r x y") auto
  note rem = compareSubs_remainder [OF c]
  show ?case
  proof (cases "c < 0")
    case True
    with compareSubs_sign(1) [OF c] Cons.prems rem show ?thesis
      by (auto simp add: c)
  next
    case False
    have set_eq: "(\<lambda>e. remainder (snd e)) ` set (insertSub r x' ys)
                  = (\<lambda>e. remainder (snd e)) ` set (x' # ys)"
      using insertSub_mset_proj [of "\<lambda>e. remainder (snd e)" r x' ys]
      by (metis untoss_fields(6) set_image_mset set_mset_mset)
    have "\<forall>z\<in>set (insertSub r x' ys). remainder (snd z) \<le> remainder (snd y')"
    proof
      fix z assume "z \<in> set (insertSub r x' ys)"
      then have "remainder (snd z) \<in> (\<lambda>e. remainder (snd e)) ` set (x' # ys)"
        using set_eq by blast
      then show "remainder (snd z) \<le> remainder (snd y')"
        using compareSubs_sign(2) [OF c False] Cons.prems rem by auto
    qed
    moreover have "sorted_wrt (\<lambda>a b. remainder (snd b) \<le> remainder (snd a)) (insertSub r x' ys)"
      using Cons.IH Cons.prems by simp
    ultimately show ?thesis using False by (simp add: c)
  qed
qed

lemma sortSubs_sorted:
  "sorted_wrt (\<lambda>a b. remainder (snd b) \<le> remainder (snd a)) (sortSubs r xs)"
proof -
  have "sorted_wrt (\<lambda>a b. remainder (snd b) \<le> remainder (snd a)) acc \<Longrightarrow>
        sorted_wrt (\<lambda>a b. remainder (snd b) \<le> remainder (snd a))
          (foldl (\<lambda>acc x. insertSub r x acc) acc xs)" for acc
    by (induction xs arbitrary: acc) (simp_all add: insertSub_sorted)
  then show ?thesis by (simp add: sortSubs_def)
qed

lemma redistributeDelegates_none:
  "allowed s = 0 \<Longrightarrow> redistributeDelegates P s = s"
  by (simp add: redistributeDelegates_def)

lemma redistributeDelegates_empty:
  "allowed s \<noteq> 0 \<Longrightarrow> participantsOf s = 0 \<Longrightarrow>
   redistributeDelegates P s =
   s\<lparr>subcaucuses := map clearDelegateInfo (subcaucuses s), participants := 0\<rparr>"
  by (simp add: redistributeDelegates_def participantsOf_def Let_def)

lemma redistributeDelegates_nonviable:
  "allowed s \<noteq> 0 \<Longrightarrow> participantsOf s \<noteq> 0 \<Longrightarrow> viableParticipantsOf s = 0 \<Longrightarrow>
   redistributeDelegates P s =
   s\<lparr>subcaucuses := map clearDelegateInfo (subcaucuses s),
     participants := participantsOf s,
     participantsPerDelegate := jsDivide (of_nat (participantsOf s)) (of_nat (allowed s)),
     viabilityNumber := viabilityNumberOf s,
     viableParticipants := 0\<rparr>"
  by (simp add: redistributeDelegates_def participantsOf_def viabilityNumberOf_def
      vSubsViable_def viableParticipantsOf_def Let_def)

lemma redistributeDelegates_viable:
  "allowed s \<noteq> 0 \<Longrightarrow> participantsOf s \<noteq> 0 \<Longrightarrow> viableParticipantsOf s \<noteq> 0 \<Longrightarrow>
   redistributeDelegates P s =
   s\<lparr>subcaucuses := writeBack (map clearDelegateInfo (subcaucuses s)) (vSubsFinal P s),
     participants := participantsOf s,
     participantsPerDelegate := jsDivide (of_nat (participantsOf s)) (of_nat (allowed s)),
     viabilityNumber := viabilityNumberOf s,
     viableParticipants := viableParticipantsOf s,
     delegateDivisor := delegateDivisorOf s,
     totalDelegates := w_totalDelegates (fst (walkOf P s))\<rparr>"
  by (simp add: redistributeDelegates_def participantsOf_def viabilityNumberOf_def
      vSubsViable_def viableParticipantsOf_def delegateDivisorOf_def vSubsQuota_def
      vSubRanksOf_def vSubsRanked_def walkOf_def vSubsFinal_def Let_def split: prod.splits)

lemma walkStep_total:
  "w_totalDelegates (fst (walkStep A w s))
   = (if w_totalDelegates w < A then w_totalDelegates w + 1 else w_totalDelegates w)"
  by (simp add: walkStep_def Let_def)

lemma walkStep_snd:
  "snd (walkStep A w s) = (if w_totalDelegates w < A then apsnd addRemainderDelegate s else s)"
  by (simp add: walkStep_def Let_def)

lemma walk_Cons_fst:
  "fst (walk A w (s # ss)) = fst (walk A (fst (walkStep A w s)) ss)"
  by (simp add: case_prod_unfold Let_def)

lemma walk_Cons_snd:
  "snd (walk A w (s # ss)) = snd (walkStep A w s) # snd (walk A (fst (walkStep A w s)) ss)"
  by (simp add: case_prod_unfold Let_def)

lemma walk_snd:
  "snd (walk A w xs)
   = map (apsnd addRemainderDelegate) (take (A - w_totalDelegates w) xs)
     @ drop (A - w_totalDelegates w) xs"
proof (induction xs arbitrary: w)
  case Nil
  show ?case by simp
next
  case (Cons x xs)
  show ?case
  proof (cases "w_totalDelegates w < A")
    case True
    then obtain k where k: "A - w_totalDelegates w = Suc k"
      by (cases "A - w_totalDelegates w") auto
    then have "A - w_totalDelegates (fst (walkStep A w x)) = k"
      using True by (simp add: walkStep_total)
    with Cons.IH [of "fst (walkStep A w x)"] True k show ?thesis
      by (simp add: walk_Cons_snd walkStep_snd del: walk.simps)
  next
    case False
    then have "A - w_totalDelegates w = 0" "A - w_totalDelegates (fst (walkStep A w x)) = 0"
      by (simp_all add: walkStep_total)
    with Cons.IH [of "fst (walkStep A w x)"] False show ?thesis
      by (simp add: walk_Cons_snd walkStep_snd del: walk.simps)
  qed
qed

lemma walk_total:
  "w_totalDelegates (fst (walk A w xs))
   = (if w_totalDelegates w \<le> A then min A (w_totalDelegates w + length xs)
      else w_totalDelegates w)"
proof (induction xs arbitrary: w)
  case Nil
  show ?case by simp
next
  case (Cons x xs)
  from Cons.IH [of "fst (walkStep A w x)"] show ?case
    by (auto simp add: walk_Cons_fst walkStep_total simp del: walk.simps)
qed

lemma setViability_fields [simp]:
  "id_sub (setViability d s) = id_sub s"
  "name_sub (setViability d s) = name_sub s"
  "count_sub (setViability d s) = count_sub s"
  "baseDelegates (setViability d s) = nat \<lfloor>jsDivide (of_nat (count_sub s)) d\<rfloor>"
  "remainder (setViability d s)
   = jsDivide (of_nat (count_sub s)) d - of_int \<lfloor>jsDivide (of_nat (count_sub s)) d\<rfloor>"
  "remainderDelegates (setViability d s) = remainderDelegates s"
  "reportTosses (setViability d s) = reportTosses s"
  "tossLog (setViability d s) = tossLog s"
  by (simp_all add: setViability_def Let_def)

lemma vSubsViable_mem:
  "(i, g) \<in> set (vSubsViable s) \<longleftrightarrow>
   i < length (subcaucuses s) \<and> g = clearDelegateInfo (subcaucuses s ! i)
   \<and> viabilityNumberOf s \<le> count_sub (subcaucuses s ! i)"
  by (auto simp add: vSubsViable_def viableSubs_mem)

lemma vSubsQuota_mem:
  "(i, g) \<in> set (vSubsQuota s) \<longleftrightarrow>
   i < length (subcaucuses s)
   \<and> g = setViability (delegateDivisorOf s) (clearDelegateInfo (subcaucuses s ! i))
   \<and> viabilityNumberOf s \<le> count_sub (subcaucuses s ! i)"
  by (auto simp add: vSubsQuota_def vSubsViable_mem image_iff apsnd_def map_prod_def split: prod.splits)

lemma vSubsQuota_fst: "map fst (vSubsQuota s) = map fst (vSubsViable s)"
  by (simp add: vSubsQuota_def comp_def)

lemma vSubsQuota_distinct: "distinct (map fst (vSubsQuota s))"
  by (simp add: vSubsQuota_fst vSubsViable_def viableSubs_distinct)

lemma vSubsQuota_count:
  "map (\<lambda>e. count_sub (snd e)) (vSubsQuota s) = map (\<lambda>e. count_sub (snd e)) (vSubsViable s)"
  by (simp add: vSubsQuota_def comp_def)

lemma viableParticipantsOf_sum:
  "viableParticipantsOf s = sum_list (map (\<lambda>e. count_sub (snd e)) (vSubsQuota s))"
  by (simp add: viableParticipantsOf_def sumCounts_sum_list vSubsQuota_count comp_def)

text \<open>The exact quotas of the viable subcaucuses add up to the allotment.\<close>

lemma quota_sum:
  assumes "allowed s \<noteq> 0" and "viableParticipantsOf s \<noteq> 0"
  shows "sum_list (map (\<lambda>e. real (count_sub (snd e)) * real (allowed s)
                              / real (viableParticipantsOf s)) (vSubsQuota s))
         = real (allowed s)"
proof -
  have "sum_list (map (\<lambda>e. real (count_sub (snd e)) * A / V) xs)
        = real (sum_list (map (\<lambda>e. count_sub (snd e)) xs)) * A / V"
    for A V :: real and xs :: "SubRef list"
    by (induction xs) (simp_all add: add_divide_distrib distrib_right)
  then have "sum_list (map (\<lambda>e. real (count_sub (snd e)) * real (allowed s)
                              / real (viableParticipantsOf s)) (vSubsQuota s))
        = real (viableParticipantsOf s) * real (allowed s) / real (viableParticipantsOf s)"
    by (simp add: viableParticipantsOf_sum)
  also have "\<dots> = real (allowed s)"
    using assms by simp
  finally show ?thesis .
qed

lemma delegateDivisorOf_pos:
  "allowed s \<noteq> 0 \<Longrightarrow> viableParticipantsOf s \<noteq> 0 \<Longrightarrow> 0 < delegateDivisorOf s"
  unfolding delegateDivisorOf_def by (rule jsDivide_pos) simp_all

lemma vSubsQuota_nonempty:
  "viableParticipantsOf s \<noteq> 0 \<Longrightarrow> vSubsQuota s \<noteq> []"
  by (auto simp add: viableParticipantsOf_sum)

text \<open>
  The base delegates of a viable subcaucus are within one of its exact quota, up to the
  fraction \<open>1 / 2 ^ 51\<close> of the quota that the two roundings of the quotient can add or
  take away.
\<close>

lemma vSubsQuota_base_bounds:
  assumes a: "allowed s \<noteq> 0" and v: "viableParticipantsOf s \<noteq> 0"
    and e: "e \<in> set (vSubsQuota s)"
  shows "real (baseDelegates (snd e))
         \<le> real (count_sub (snd e)) * real (allowed s) / real (viableParticipantsOf s)
           * (1 + 1 / 2 ^ 51)"
    and "real (count_sub (snd e)) * real (allowed s) / real (viableParticipantsOf s)
           * (1 - 1 / 2 ^ 51) - 1
         \<le> real (baseDelegates (snd e))"
proof -
  let ?c = "count_sub (snd e)" and ?A = "allowed s" and ?V = "viableParticipantsOf s"
  let ?qt = "jsDivide (real ?c) (jsDivide (real ?V) (real ?A))"
  let ?q = "real ?c * real ?A / real ?V"
  obtain i g where ig: "e = (i, g)" by (cases e)
  with e have g: "g = setViability (delegateDivisorOf s) (clearDelegateInfo (subcaucuses s ! i))"
    by (simp add: vSubsQuota_mem)
  have b: "baseDelegates (snd e) = nat \<lfloor>?qt\<rfloor>"
    using ig g by (simp add: delegateDivisorOf_def)
  have "0 \<le> ?qt"
    using delegateDivisorOf_pos [OF a v] by (intro jsDivide_nonneg) (simp_all add: delegateDivisorOf_def)
  then have fl: "real (nat \<lfloor>?qt\<rfloor>) = of_int \<lfloor>?qt\<rfloor>" by simp
  have A: "0 < ?A" and V: "0 < ?V" using a v by simp_all
  have "\<bar>?qt - ?q\<bar> \<le> ?q / 2 ^ 51"
    using A V by (rule quota_error)
  then have err: "?qt \<le> ?q * (1 + 1 / 2 ^ 51)" "?q * (1 - 1 / 2 ^ 51) \<le> ?qt"
    by (simp_all add: abs_le_iff algebra_simps)
  have "of_int \<lfloor>?qt\<rfloor> \<le> ?qt" "?qt - 1 \<le> of_int \<lfloor>?qt\<rfloor>" by linarith+
  with err show "real (baseDelegates (snd e)) \<le> ?q * (1 + 1 / 2 ^ 51)"
    and "?q * (1 - 1 / 2 ^ 51) - 1 \<le> real (baseDelegates (snd e))"
    unfolding b fl by linarith+
qed

text \<open>
  With fewer than \<open>2 ^ 51\<close> delegates allowed, the base delegates never exceed the
  allotment, and the seats left over are at most as many as the viable subcaucuses.
\<close>

lemma base_total_bounds:
  assumes a: "allowed s \<noteq> 0" and v: "viableParticipantsOf s \<noteq> 0"
    and m: "allowed s < 2 ^ 51"
  shows "sumBaseDelegates (map snd (vSubsQuota s)) \<le> allowed s"
    and "allowed s \<le> sumBaseDelegates (map snd (vSubsQuota s)) + length (vSubsQuota s)"
proof -
  let ?q = "\<lambda>e. real (count_sub (snd e)) * real (allowed s) / real (viableParticipantsOf s)"
  have "real (sum_list (map (\<lambda>e. baseDelegates (snd e)) xs))
        = sum_list (map (\<lambda>e. real (baseDelegates (snd e))) xs)" for xs :: "SubRef list"
    by (induction xs) simp_all
  then have base: "real (sumBaseDelegates (map snd (vSubsQuota s)))
      = sum_list (map (\<lambda>e. real (baseDelegates (snd e))) (vSubsQuota s))"
    by (simp add: sumBaseDelegates_sum_list comp_def)
  have scale: "sum_list (map (\<lambda>e. ?q e * k) xs) = sum_list (map ?q xs) * k"
    for k :: real and xs :: "SubRef list"
    by (induction xs) (simp_all add: distrib_right)
  have "real (allowed s) < 2 ^ 51"
    using m by (metis of_nat_less_numeral_power_cancel_iff)
  then have small: "real (allowed s) / 2 ^ 51 < 1" by simp
  have "sum_list (map (\<lambda>e. real (baseDelegates (snd e))) (vSubsQuota s))
        \<le> sum_list (map (\<lambda>e. ?q e * (1 + 1 / 2 ^ 51)) (vSubsQuota s))"
    by (rule sum_list_mono) (rule vSubsQuota_base_bounds(1) [OF a v])
  also have "\<dots> = real (allowed s) * (1 + 1 / 2 ^ 51)"
    by (simp only: scale quota_sum [OF a v])
  finally have "real (sumBaseDelegates (map snd (vSubsQuota s))) < real (allowed s) + 1"
    using small by (simp add: base algebra_simps)
  then have "real (sumBaseDelegates (map snd (vSubsQuota s))) < real (allowed s + 1)"
    by simp
  then have "sumBaseDelegates (map snd (vSubsQuota s)) < allowed s + 1"
    by (simp only: of_nat_less_iff)
  then show "sumBaseDelegates (map snd (vSubsQuota s)) \<le> allowed s" by simp
  have "sum_list (map (\<lambda>e. ?q e * (1 - 1 / 2 ^ 51) - 1) (vSubsQuota s))
        \<le> sum_list (map (\<lambda>e. real (baseDelegates (snd e))) (vSubsQuota s))"
    by (rule sum_list_mono) (rule vSubsQuota_base_bounds(2) [OF a v])
  moreover have "sum_list (map (\<lambda>e. ?q e * (1 - 1 / 2 ^ 51) - 1) (vSubsQuota s))
        = real (allowed s) * (1 - 1 / 2 ^ 51) - real (length (vSubsQuota s))"
    by (simp only: sum_list_subtractf scale quota_sum [OF a v] sum_list_triv)
  ultimately have "real (allowed s) - 1
        < real (sumBaseDelegates (map snd (vSubsQuota s))) + real (length (vSubsQuota s))"
    using small by (simp add: base algebra_simps)
  then have "real (allowed s)
        < real (sumBaseDelegates (map snd (vSubsQuota s)) + length (vSubsQuota s) + 1)"
    by simp
  then have "allowed s < sumBaseDelegates (map snd (vSubsQuota s)) + length (vSubsQuota s) + 1"
    by (simp only: of_nat_less_iff)
  then show "allowed s \<le> sumBaseDelegates (map snd (vSubsQuota s)) + length (vSubsQuota s)"
    by simp
qed

lemma markReports_fst [simp]: "map fst (markReports R xs) = map fst xs"
  by (simp add: markReports_def comp_def case_prod_unfold)

lemma markReports_length [simp]: "length (markReports R xs) = length xs"
  by (simp add: markReports_def)

lemma markReports_set:
  "set (markReports R W)
   = (\<lambda>e0. (fst e0, if fst e0 \<in> set R then (snd e0)\<lparr>reportTosses := True\<rparr> else snd e0)) ` set W"
  by (simp add: markReports_def case_prod_unfold)

lemma markReports_proj:
  assumes "\<And>s b. f (s\<lparr>reportTosses := b\<rparr>) = f s"
  shows "map (\<lambda>e. f (snd e)) (markReports R xs) = map (\<lambda>e. f (snd e)) xs"
  by (simp add: markReports_def comp_def case_prod_unfold assms)

lemma markReports_total:
  "map (\<lambda>e. totalDelegates_sub (snd e)) (markReports R xs)
   = map (\<lambda>e. totalDelegates_sub (snd e)) xs"
  by (rule markReports_proj) (simp add: totalDelegates_sub_def)

lemma walk_fst [simp]: "map fst (snd (walk A w xs)) = map fst xs"
proof -
  have "map fst (map (apsnd addRemainderDelegate) (take k xs) @ drop k xs) = map fst xs" for k
    by (simp add: comp_def flip: take_map drop_map)
  then show ?thesis by (simp only: walk_snd)
qed

lemma walk_length [simp]: "length (snd (walk A w xs)) = length xs"
  using walk_fst [of A w xs] by (metis length_map)

lemma vSubsRanked_fst: "mset (map fst (vSubsRanked P s)) = mset (map fst (vSubsQuota s))"
  by (simp only: vSubsRanked_def sortSubs_fst)

lemma vSubsFinal_fst: "mset (map fst (vSubsFinal P s)) = mset (map fst (vSubsQuota s))"
  by (simp add: vSubsFinal_def walkOf_def vSubsRanked_fst del: mset_map)

lemma vSubsFinal_distinct: "distinct (map fst (vSubsFinal P s))"
  using vSubsFinal_fst [of P s] vSubsQuota_distinct [of s]
  by (metis mset_eq_imp_distinct_iff)

lemma vSubsFinal_keys:
  "fst ` set (vSubsFinal P s)
   = {i. i < length (subcaucuses s) \<and> viabilityNumberOf s \<le> count_sub (subcaucuses s ! i)}"
proof -
  have "set (map fst (vSubsFinal P s)) = set (map fst (vSubsQuota s))"
    using vSubsFinal_fst [of P s] by (rule mset_eq_setD)
  also have "\<dots> = {i. i < length (subcaucuses s) \<and> viabilityNumberOf s \<le> count_sub (subcaucuses s ! i)}"
  proof (intro set_eqI iffI)
    fix i assume "i \<in> set (map fst (vSubsQuota s))"
    then obtain g where "(i, g) \<in> set (vSubsQuota s)" by auto
    then show "i \<in> {i. i < length (subcaucuses s) \<and> viabilityNumberOf s \<le> count_sub (subcaucuses s ! i)}"
      by (simp add: vSubsQuota_mem)
  next
    fix i assume "i \<in> {i. i < length (subcaucuses s) \<and> viabilityNumberOf s \<le> count_sub (subcaucuses s ! i)}"
    then have "(i, setViability (delegateDivisorOf s) (clearDelegateInfo (subcaucuses s ! i)))
               \<in> set (vSubsQuota s)"
      by (simp add: vSubsQuota_mem)
    then show "i \<in> set (map fst (vSubsQuota s))" by force
  qed
  finally show ?thesis by simp
qed

lemma vSubsRanked_remainderDelegates:
  assumes "e \<in> set (vSubsRanked P s)"
  shows "remainderDelegates (snd e) = 0"
proof -
  have "image_mset (\<lambda>e. remainderDelegates (snd e)) (mset (vSubsRanked P s))
        = image_mset (\<lambda>e. remainderDelegates (snd e)) (mset (vSubsQuota s))"
    unfolding vSubsRanked_def by (rule sortSubs_mset_proj) simp
  then have "(\<lambda>e. remainderDelegates (snd e)) ` set (vSubsRanked P s)
        = (\<lambda>e. remainderDelegates (snd e)) ` set (vSubsQuota s)"
    by (metis set_image_mset set_mset_mset)
  moreover have "remainderDelegates (snd e') = 0" if "e' \<in> set (vSubsQuota s)" for e'
  proof -
    obtain i g where e': "e' = (i, g)" by (cases e')
    with that have "g = setViability (delegateDivisorOf s) (clearDelegateInfo (subcaucuses s ! i))"
      by (simp add: vSubsQuota_mem)
    with e' show ?thesis by simp
  qed
  ultimately show ?thesis using assms by (metis (no_types, lifting) image_iff)
qed

lemma vSubsRanked_base_sum:
  "sum_list (map (\<lambda>e. baseDelegates (snd e)) (vSubsRanked P s))
   = sumBaseDelegates (map snd (vSubsQuota s))"
proof -
  have "image_mset (\<lambda>e. baseDelegates (snd e)) (mset (vSubsRanked P s))
        = image_mset (\<lambda>e. baseDelegates (snd e)) (mset (vSubsQuota s))"
    unfolding vSubsRanked_def by (rule sortSubs_mset_proj) simp
  then have "sum_mset (mset (map (\<lambda>e. baseDelegates (snd e)) (vSubsRanked P s)))
        = sum_mset (mset (map (\<lambda>e. baseDelegates (snd e)) (vSubsQuota s)))"
    by simp
  then show ?thesis
    by (simp only: sum_mset_sum_list sumBaseDelegates_sum_list map_map comp_def)
qed

lemma sum_after_walk:
  assumes "\<forall>e\<in>set xs. remainderDelegates (snd e) = 0"
  shows "sum_list (map (\<lambda>e. totalDelegates_sub (snd e))
            (map (apsnd addRemainderDelegate) (take L xs) @ drop L xs))
         = sum_list (map (\<lambda>e. baseDelegates (snd e)) xs) + min L (length xs)"
  using assms
proof (induction xs arbitrary: L)
  case Nil
  show ?case by simp
next
  case (Cons x xs)
  show ?case
  proof (cases L)
    case 0
    have "sum_list (map (\<lambda>e. totalDelegates_sub (snd e)) (x # xs))
          = sum_list (map (\<lambda>e. baseDelegates (snd e)) (x # xs))"
      using Cons.prems by (intro arg_cong [where f = sum_list] map_cong) (auto simp add: totalDelegates_sub_def)
    with 0 show ?thesis by simp
  next
    case (Suc k)
    with Cons.IH [of k] Cons.prems show ?thesis
      by (simp add: totalDelegates_sub_def addRemainderDelegate_def)
  qed
qed

lemma viableParticipantsOf_le: "viableParticipantsOf s \<le> participantsOf s"
proof -
  have "sum_list (map count_sub (filter Q xs)) \<le> sum_list (map count_sub xs)" for Q xs
    by (induction xs) simp_all
  then show ?thesis
    unfolding viableParticipantsOf_def participantsOf_def vSubsViable_def viableSubs_snd
      sumCounts_sum_list .
qed

lemma walkOf_total:
  assumes a: "allowed s \<noteq> 0" and v: "viableParticipantsOf s \<noteq> 0"
    and m: "allowed s < 2 ^ 51"
  shows "w_totalDelegates (fst (walkOf P s)) = allowed s"
  using base_total_bounds [OF a v m]
  by (simp add: walkOf_def walk_total vSubsRanked_def)

lemma remainderDelegates_after_walk:
  assumes "\<forall>e\<in>set xs. remainderDelegates (snd e) = 0" and "k \<le> length xs"
  shows "map (\<lambda>e. remainderDelegates (snd e))
          (map (apsnd addRemainderDelegate) (take k xs) @ drop k xs)
        = replicate k 1 @ replicate (length xs - k) 0"
  using assms
proof (induction xs arbitrary: k)
  case Nil
  then show ?case by simp
next
  case (Cons x xs)
  show ?case
  proof (cases k)
    case 0
    have "map (\<lambda>e. remainderDelegates (snd e)) (x # xs) = replicate (length (x # xs)) 0"
      using Cons.prems(1) by (simp only: map_replicate_const [symmetric] map_eq_conv)
    with 0 show ?thesis by simp
  next
    case (Suc j)
    with Cons.IH [of j] Cons.prems show ?thesis
      by (simp add: addRemainderDelegate_def)
  qed
qed

lemma vSubsFinal_proj:
  assumes f1: "\<And>e. f (untoss e) = f e"
    and f2: "\<And>e. f (apsnd addRemainderDelegate e) = f e"
    and f3: "\<And>i g b. f (i, g\<lparr>reportTosses := b\<rparr>) = f (i, g)"
  shows "image_mset f (mset (vSubsFinal P s)) = image_mset f (mset (vSubsQuota s))"
proof -
  have "map f (markReports R W) = map f W" for R W
    by (simp add: markReports_def case_prod_unfold f3)
  from arg_cong [where f = mset, OF this]
  have "image_mset f (mset (vSubsFinal P s)) = image_mset f (mset (snd (walkOf P s)))"
    unfolding vSubsFinal_def by simp
  also have "\<dots> = image_mset f (mset (vSubsRanked P s))"
  proof -
    have "map f (map (apsnd addRemainderDelegate) (take k r) @ drop k r) = map f (take k r @ drop k r)"
      for k r
      by (simp add: comp_def f2 flip: take_map drop_map)
    then have "map f (snd (walkOf P s)) = map f (vSubsRanked P s)"
      unfolding walkOf_def walk_snd by simp
    from arg_cong [where f = mset, OF this] show ?thesis by simp
  qed
  also have "\<dots> = image_mset f (mset (vSubsQuota s))"
    unfolding vSubsRanked_def using f1 by (rule sortSubs_mset_proj)
  finally show ?thesis .
qed

text \<open>What an entry of the final \<open>vSubs\<close> holds.\<close>

lemma vSubsFinal_entry:
  assumes "(i, g) \<in> set (vSubsFinal P s)"
  shows "i < length (subcaucuses s)"
    and "viabilityNumberOf s \<le> count_sub (subcaucuses s ! i)"
    and "id_sub g = id_sub (subcaucuses s ! i)"
    and "name_sub g = name_sub (subcaucuses s ! i)"
    and "count_sub g = count_sub (subcaucuses s ! i)"
    and "baseDelegates g
         = nat \<lfloor>jsDivide (of_nat (count_sub (subcaucuses s ! i))) (delegateDivisorOf s)\<rfloor>"
    and "remainder g
         = jsDivide (of_nat (count_sub (subcaucuses s ! i))) (delegateDivisorOf s)
           - of_int \<lfloor>jsDivide (of_nat (count_sub (subcaucuses s ! i))) (delegateDivisorOf s)\<rfloor>"
proof -
  let ?f = "\<lambda>e :: SubRef. (fst e, id_sub (snd e), name_sub (snd e), count_sub (snd e),
                           baseDelegates (snd e), remainder (snd e))"
  have "image_mset ?f (mset (vSubsFinal P s)) = image_mset ?f (mset (vSubsQuota s))"
    by (rule vSubsFinal_proj) (simp_all add: addRemainderDelegate_def)
  from arg_cong [where f = set_mset, OF this]
  have "?f ` set (vSubsFinal P s) = ?f ` set (vSubsQuota s)"
    by simp
  with assms have "?f (i, g) \<in> ?f ` set (vSubsQuota s)" by blast
  then obtain e where e: "e \<in> set (vSubsQuota s)" and eq': "?f (i, g) = ?f e"
    by (rule imageE)
  obtain j h where "e = (j, h)" by (cases e)
  with e eq' have jh: "(j, h) \<in> set (vSubsQuota s)" and eq: "?f (i, g) = ?f (j, h)"
    by simp_all
  from jh have h: "j < length (subcaucuses s)"
    "h = setViability (delegateDivisorOf s) (clearDelegateInfo (subcaucuses s ! j))"
    "viabilityNumberOf s \<le> count_sub (subcaucuses s ! j)"
    by (simp_all add: vSubsQuota_mem)
  from eq have "i = j" by simp
  with eq h show "i < length (subcaucuses s)"
    and "viabilityNumberOf s \<le> count_sub (subcaucuses s ! i)"
    and "id_sub g = id_sub (subcaucuses s ! i)"
    and "name_sub g = name_sub (subcaucuses s ! i)"
    and "count_sub g = count_sub (subcaucuses s ! i)"
    and "baseDelegates g
         = nat \<lfloor>jsDivide (of_nat (count_sub (subcaucuses s ! i))) (delegateDivisorOf s)\<rfloor>"
    and "remainder g
         = jsDivide (of_nat (count_sub (subcaucuses s ! i))) (delegateDivisorOf s)
           - of_int \<lfloor>jsDivide (of_nat (count_sub (subcaucuses s ! i))) (delegateDivisorOf s)\<rfloor>"
    by simp_all
qed

text \<open>The subcaucus at a position after the computation.\<close>

lemma result_nth_viable:
  assumes a: "allowed s \<noteq> 0" and v: "viableParticipantsOf s \<noteq> 0"
    and i: "i < length (subcaucuses s)"
    and c: "viabilityNumberOf s \<le> count_sub (subcaucuses s ! i)"
  shows "(i, subcaucuses (redistributeDelegates P s) ! i) \<in> set (vSubsFinal P s)"
proof -
  have p: "participantsOf s \<noteq> 0"
    using v viableParticipantsOf_le [of s] by simp
  from i c have "i \<in> fst ` set (vSubsFinal P s)"
    by (simp add: vSubsFinal_keys)
  then obtain g where g: "(i, g) \<in> set (vSubsFinal P s)" by force
  then have "writeBack (map clearDelegateInfo (subcaucuses s)) (vSubsFinal P s) ! i = g"
    using i by (intro writeBack_nth_in vSubsFinal_distinct) simp_all
  with g show ?thesis
    by (simp add: redistributeDelegates_viable [OF a p v])
qed

lemma result_nth_nonviable:
  assumes a: "allowed s \<noteq> 0"
    and i: "i < length (subcaucuses s)"
    and c: "participantsOf s = 0 \<or> count_sub (subcaucuses s ! i) < viabilityNumberOf s"
  shows "subcaucuses (redistributeDelegates P s) ! i = clearDelegateInfo (subcaucuses s ! i)"
proof (cases "participantsOf s = 0")
  case True
  with a i show ?thesis by (simp add: redistributeDelegates_empty)
next
  case p: False
  show ?thesis
  proof (cases "viableParticipantsOf s = 0")
    case True
    with a p i show ?thesis by (simp add: redistributeDelegates_nonviable)
  next
    case v: False
    from c p have "i \<notin> fst ` set (vSubsFinal P s)"
      by (simp add: vSubsFinal_keys)
    then have "writeBack (map clearDelegateInfo (subcaucuses s)) (vSubsFinal P s) ! i
               = map clearDelegateInfo (subcaucuses s) ! i"
      using i by (intro writeBack_nth_out) simp_all
    with i show ?thesis
      by (simp add: redistributeDelegates_viable [OF a p v])
  qed
qed

lemma result_length:
  "length (subcaucuses (redistributeDelegates P s)) = length (subcaucuses s)"
proof (cases "allowed s = 0")
  case True
  then show ?thesis by (simp add: redistributeDelegates_none)
next
  case a: False
  show ?thesis
  proof (cases "participantsOf s = 0")
    case True
    with a show ?thesis by (simp add: redistributeDelegates_empty)
  next
    case p: False
    show ?thesis
    proof (cases "viableParticipantsOf s = 0")
      case True
      with a p show ?thesis by (simp add: redistributeDelegates_nonviable)
    next
      case False
      with a p show ?thesis by (simp add: redistributeDelegates_viable)
    qed
  qed
qed

lemma result_viabilityNumber:
  "allowed s \<noteq> 0 \<Longrightarrow> participantsOf s \<noteq> 0 \<Longrightarrow>
   viabilityNumber (redistributeDelegates P s) = viabilityNumberOf s"
  by (cases "viableParticipantsOf s = 0")
     (simp_all add: redistributeDelegates_nonviable redistributeDelegates_viable)

lemma participantsOf_sum: "participantsOf s = sum_list (map count_sub (subcaucuses s))"
  by (simp add: participantsOf_def sumCounts_sum_list comp_def)

lemma viableParticipantsOf_filter:
  "viableParticipantsOf s
   = sum_list (map count_sub (filter (\<lambda>g. viabilityNumberOf s \<le> count_sub g) (subcaucuses s)))"
proof -
  have "map count_sub (filter (\<lambda>g. n \<le> count_sub g) (map clearDelegateInfo xs))
        = map count_sub (filter (\<lambda>g. n \<le> count_sub g) xs)" for n xs
    by (induction xs) simp_all
  then show ?thesis
    by (simp add: viableParticipantsOf_def vSubsViable_def viableSubs_snd sumCounts_sum_list)
qed

lemma viabilityNumberOf_pos:
  assumes "allowed s \<noteq> 0" and "participantsOf s \<noteq> 0"
  shows "0 < viabilityNumberOf s"
proof -
  have "0 < jsDivide (real (participantsOf s)) (real (allowed s))"
    using assms by (intro jsDivide_pos) simp_all
  then have "0 < \<lceil>jsDivide (real (participantsOf s)) (real (allowed s))\<rceil>"
    by simp
  then show ?thesis by (simp add: viabilityNumberOf_def)
qed

lemma viable_pool_nonzero:
  assumes a: "allowed s \<noteq> 0" and p: "participantsOf s \<noteq> 0"
    and i: "i < length (subcaucuses s)"
    and c: "viabilityNumberOf s \<le> count_sub (subcaucuses s ! i)"
  shows "viableParticipantsOf s \<noteq> 0"
proof -
  let ?g = "subcaucuses s ! i"
  have "?g \<in> set (filter (\<lambda>g. viabilityNumberOf s \<le> count_sub g) (subcaucuses s))"
    using i c by simp
  then have "count_sub ?g \<le> viableParticipantsOf s"
    unfolding viableParticipantsOf_filter
    by (intro member_le_sum_list) auto
  with viabilityNumberOf_pos [OF a p] c show ?thesis by simp
qed

lemma clearDelegateInfo_eqI:
  assumes "id_sub a = id_sub b" and "name_sub a = name_sub b" and "count_sub a = count_sub b"
  shows "clearDelegateInfo a = clearDelegateInfo b"
  using assms by (cases a, cases b) (simp add: clearDelegateInfo_def)

text \<open>The computation leaves the identifier, the name and the count of every subcaucus.\<close>

lemma result_reset:
  "map clearDelegateInfo (subcaucuses (redistributeDelegates P s))
   = map clearDelegateInfo (subcaucuses s)"
proof (cases "allowed s = 0")
  case True
  then show ?thesis by (simp add: redistributeDelegates_none)
next
  case a: False
  show ?thesis
  proof (rule nth_equalityI)
    show "length (map clearDelegateInfo (subcaucuses (redistributeDelegates P s)))
          = length (map clearDelegateInfo (subcaucuses s))"
      by (simp add: result_length)
  next
    fix i
    assume "i < length (map clearDelegateInfo (subcaucuses (redistributeDelegates P s)))"
    then have i: "i < length (subcaucuses s)" by (simp add: result_length)
    have "clearDelegateInfo (subcaucuses (redistributeDelegates P s) ! i)
          = clearDelegateInfo (subcaucuses s ! i)"
    proof (cases "participantsOf s = 0 \<or> count_sub (subcaucuses s ! i) < viabilityNumberOf s")
      case True
      from result_nth_nonviable [OF a i True, of P] show ?thesis by simp
    next
      case False
      then have p: "participantsOf s \<noteq> 0"
        and c: "viabilityNumberOf s \<le> count_sub (subcaucuses s ! i)" by simp_all
      from viable_pool_nonzero [OF a p i c] have v: "viableParticipantsOf s \<noteq> 0" .
      note e = vSubsFinal_entry [OF result_nth_viable [OF a v i c, of P]]
      from e(3) e(4) e(5) show ?thesis by (rule clearDelegateInfo_eqI)
    qed
    with i show "map clearDelegateInfo (subcaucuses (redistributeDelegates P s)) ! i
                 = map clearDelegateInfo (subcaucuses s) ! i"
      by (simp add: result_length)
  qed
qed

text \<open>
  The intermediate values depend on the snapshot through the allotment, the seed and
  the reset subcaucuses only.
\<close>

lemma stage_cong:
  assumes "allowed s1 = allowed s2" and "seed s1 = seed s2"
    and "map clearDelegateInfo (subcaucuses s1) = map clearDelegateInfo (subcaucuses s2)"
  shows "participantsOf s1 = participantsOf s2"
    and "viabilityNumberOf s1 = viabilityNumberOf s2"
    and "viableParticipantsOf s1 = viableParticipantsOf s2"
    and "delegateDivisorOf s1 = delegateDivisorOf s2"
    and "walkOf P s1 = walkOf P s2"
    and "vSubsFinal P s1 = vSubsFinal P s2"
proof -
  show p: "participantsOf s1 = participantsOf s2"
    using assms by (simp add: participantsOf_def)
  show vn: "viabilityNumberOf s1 = viabilityNumberOf s2"
    using assms p by (simp add: viabilityNumberOf_def)
  have vs: "vSubsViable s1 = vSubsViable s2"
    using assms vn by (simp add: vSubsViable_def)
  show vp: "viableParticipantsOf s1 = viableParticipantsOf s2"
    using vs by (simp add: viableParticipantsOf_def)
  show dd: "delegateDivisorOf s1 = delegateDivisorOf s2"
    using assms vp by (simp add: delegateDivisorOf_def)
  have q: "vSubsQuota s1 = vSubsQuota s2"
    using vs dd by (simp add: vSubsQuota_def)
  have r: "vSubsRanked P s1 = vSubsRanked P s2"
    using assms q by (simp add: vSubsRanked_def vSubRanksOf_def)
  show w: "walkOf P s1 = walkOf P s2"
    using assms q r by (simp add: walkOf_def)
  show "vSubsFinal P s1 = vSubsFinal P s2"
    using w by (simp add: vSubsFinal_def)
qed

text \<open>The ranked list: what the sort keeps of the entries, and its order.\<close>

lemma vSubsRanked_image:
  assumes "\<And>e. f (untoss e) = f e"
  shows "f ` set (vSubsRanked P s) = f ` set (vSubsQuota s)"
proof -
  have "image_mset f (mset (vSubsRanked P s)) = image_mset f (mset (vSubsQuota s))"
    unfolding vSubsRanked_def using assms by (rule sortSubs_mset_proj)
  from arg_cong [where f = set_mset, OF this] show ?thesis by simp
qed

lemma vSubsQuota_remainder_nonneg:
  assumes "e \<in> set (vSubsQuota s)"
  shows "0 \<le> remainder (snd e)"
proof -
  obtain i g where e: "e = (i, g)" by (cases e)
  with assms have "g = setViability (delegateDivisorOf s) (clearDelegateInfo (subcaucuses s ! i))"
    by (simp add: vSubsQuota_mem)
  with e show ?thesis by simp
qed

lemma vSubsRanked_remainder_nonneg:
  assumes "e \<in> set (vSubsRanked P s)"
  shows "0 \<le> remainder (snd e)"
proof -
  have "(\<lambda>e. remainder (snd e)) ` set (vSubsRanked P s)
        = (\<lambda>e. remainder (snd e)) ` set (vSubsQuota s)"
    by (rule vSubsRanked_image) simp
  with assms obtain e' where "e' \<in> set (vSubsQuota s)" "remainder (snd e) = remainder (snd e')"
    by (metis (no_types, lifting) image_iff)
  with vSubsQuota_remainder_nonneg [of e' s] show ?thesis by simp
qed

lemma vSubsRanked_reportTosses:
  assumes "e \<in> set (vSubsRanked P s)"
  shows "\<not> reportTosses (snd e)"
proof -
  have "(\<lambda>e. reportTosses (snd e)) ` set (vSubsRanked P s)
        = (\<lambda>e. reportTosses (snd e)) ` set (vSubsQuota s)"
    by (rule vSubsRanked_image) simp
  with assms obtain e' where e': "e' \<in> set (vSubsQuota s)"
    "reportTosses (snd e) = reportTosses (snd e')"
    by (metis (no_types, lifting) image_iff)
  obtain i g where "e' = (i, g)" by (cases e')
  with e' have "g = setViability (delegateDivisorOf s) (clearDelegateInfo (subcaucuses s ! i))"
    by (simp add: vSubsQuota_mem)
  with e' \<open>e' = (i, g)\<close> show ?thesis by simp
qed

lemma vSubsRanked_distinct: "distinct (map fst (vSubsRanked P s))"
  using vSubsRanked_fst [of P s] vSubsQuota_distinct [of s]
  by (metis mset_eq_imp_distinct_iff)

lemma vSubsRanked_sorted:
  "sorted_wrt (\<lambda>a b. remainder (snd b) \<le> remainder (snd a)) (vSubsRanked P s)"
  unfolding vSubsRanked_def by (rule sortSubs_sorted)

lemma vSubsFinal_position:
  assumes a: "allowed s \<noteq> 0" and v: "viableParticipantsOf s \<noteq> 0"
    and e: "(j, g) \<in> set (vSubsFinal P s)"
  shows "j < length (subcaucuses s)"
    and "viabilityNumberOf s \<le> count_sub (subcaucuses s ! j)"
    and "subcaucuses (redistributeDelegates P s) ! j = g"
proof -
  show j: "j < length (subcaucuses s)"
    and c: "viabilityNumberOf s \<le> count_sub (subcaucuses s ! j)"
    using vSubsFinal_entry(1,2) [OF e] .
  have p: "participantsOf s \<noteq> 0"
    using v viableParticipantsOf_le [of s] by simp
  have "writeBack (map clearDelegateInfo (subcaucuses s)) (vSubsFinal P s) ! j = g"
    using e j by (intro writeBack_nth_in vSubsFinal_distinct) simp_all
  then show "subcaucuses (redistributeDelegates P s) ! j = g"
    by (simp add: redistributeDelegates_viable [OF a p v])
qed

subsection \<open>Conservation\<close>

text \<open>What the walk did to an entry is what the snapshot shows at its position.\<close>

lemma walkOf_position:
  assumes a: "allowed s \<noteq> 0" and v: "viableParticipantsOf s \<noteq> 0"
    and e: "e \<in> set (snd (walkOf P s))"
  shows "fst e < length (subcaucuses s)"
    and "baseDelegates (subcaucuses (redistributeDelegates P s) ! fst e) = baseDelegates (snd e)"
    and "remainder (subcaucuses (redistributeDelegates P s) ! fst e) = remainder (snd e)"
    and "remainderDelegates (subcaucuses (redistributeDelegates P s) ! fst e)
         = remainderDelegates (snd e)"
proof -
  let ?R = "w_reportingTo (fst (walkOf P s))"
  let ?g = "if fst e \<in> set ?R then (snd e)\<lparr>reportTosses := True\<rparr> else snd e"
  have "(fst e, ?g) \<in> set (vSubsFinal P s)"
    unfolding vSubsFinal_def markReports_set using e by (rule rev_image_eqI) simp
  note pos = vSubsFinal_position [OF a v this]
  show "fst e < length (subcaucuses s)" by (rule pos(1))
  show "baseDelegates (subcaucuses (redistributeDelegates P s) ! fst e) = baseDelegates (snd e)"
    and "remainder (subcaucuses (redistributeDelegates P s) ! fst e) = remainder (snd e)"
    and "remainderDelegates (subcaucuses (redistributeDelegates P s) ! fst e)
         = remainderDelegates (snd e)"
    by (simp_all add: pos(3))
qed



subsection \<open>Viability\<close>

text \<open>
  C7. After the computation a subcaucus whose count is below the viability number has
  no base delegates, remainder zero and no remainder delegate. The statement holds for
  every snapshot that has an allotment, and for one without allotment that was never
  computed (its viability number is still zero).
\<close>

theorem no_seat_without_viability:
  assumes "0 < allowed s \<or> viabilityNumber s = 0"
  shows "\<forall>g\<in>set (subcaucuses (redistributeDelegates P s)).
           count_sub g < viabilityNumber (redistributeDelegates P s) \<longrightarrow>
           baseDelegates g = 0 \<and> remainder g = 0 \<and> remainderDelegates g = 0"
proof (cases "allowed s = 0")
  case True
  with assms show ?thesis by (simp add: redistributeDelegates_none)
next
  case a: False
  show ?thesis
  proof (intro ballI impI)
    fix g
    assume "g \<in> set (subcaucuses (redistributeDelegates P s))"
      and lt: "count_sub g < viabilityNumber (redistributeDelegates P s)"
    then obtain i where i: "i < length (subcaucuses s)"
      and g: "g = subcaucuses (redistributeDelegates P s) ! i"
      by (auto simp add: in_set_conv_nth result_length)
    have "g = clearDelegateInfo (subcaucuses s ! i)"
    proof (cases "participantsOf s = 0")
      case True
      with a i g show ?thesis by (simp add: result_nth_nonviable)
    next
      case p: False
      show ?thesis
      proof (cases "count_sub (subcaucuses s ! i) < viabilityNumberOf s")
        case True
        with a i g show ?thesis by (simp add: result_nth_nonviable)
      next
        case False
        then have c: "viabilityNumberOf s \<le> count_sub (subcaucuses s ! i)" by simp
        from viable_pool_nonzero [OF a p i c] have v: "viableParticipantsOf s \<noteq> 0" .
        from result_nth_viable [OF a v i c, of P] g
        have "(i, g) \<in> set (vSubsFinal P s)" by simp
        from vSubsFinal_entry(5) [OF this] c lt result_viabilityNumber [OF a p, of P]
        show ?thesis by simp
      qed
    qed
    then show "baseDelegates g = 0 \<and> remainder g = 0 \<and> remainderDelegates g = 0"
      by simp
  qed
qed

theorem no_seat_without_viability_witness:
  "0 < allowed scenarioA
   \<and> viabilityNumber (redistributeDelegates lcg scenarioA) = 12
   \<and> map count_sub (subcaucuses (redistributeDelegates lcg scenarioA)) = [10, 0, 100, 1, 0]
   \<and> map baseDelegates (subcaucuses (redistributeDelegates lcg scenarioA)) = [0, 0, 10, 0, 0]
   \<and> map remainder (subcaucuses (redistributeDelegates lcg scenarioA)) = [0, 0, 0, 0, 0]
   \<and> map remainderDelegates (subcaucuses (redistributeDelegates lcg scenarioA)) = [0, 0, 0, 0, 0]"
  using no_seat_without_viability [of scenarioA lcg]
  by (simp add: scenarioA_def run_defs)




subsection \<open>Idempotence\<close>

text \<open>
  C9. Redistributing the delegates of a snapshot that has just been redistributed
  changes nothing: the snapshot is the same, with every aggregate, every field of every
  subcaucus and every toss log.
\<close>

theorem idempotence:
  "redistributeDelegates P (redistributeDelegates P s) = redistributeDelegates P s"
proof (cases "allowed s = 0")
  case True
  then show ?thesis by (simp add: redistributeDelegates_none)
next
  case a: False
  let ?s' = "redistributeDelegates P s"
  have a': "allowed ?s' \<noteq> 0" using a by (simp add: redistributeDelegates_frame)
  note cong = stage_cong [of ?s' s, OF redistributeDelegates_frame(6) redistributeDelegates_frame(7)
      result_reset]
  show ?thesis
  proof (cases "participantsOf s = 0")
    case p: True
    then have p': "participantsOf ?s' = 0" by (simp add: cong)
    show ?thesis
      unfolding redistributeDelegates_empty [OF a' p'] result_reset
      by (simp add: redistributeDelegates_empty [OF a p])
  next
    case p: False
    then have p': "participantsOf ?s' \<noteq> 0" by (simp add: cong)
    show ?thesis
    proof (cases "viableParticipantsOf s = 0")
      case v: True
      then have v': "viableParticipantsOf ?s' = 0" by (simp add: cong)
      show ?thesis
        unfolding redistributeDelegates_nonviable [OF a' p' v'] result_reset cong
          redistributeDelegates_frame
        by (simp add: redistributeDelegates_nonviable [OF a p v])
    next
      case v: False
      then have v': "viableParticipantsOf ?s' \<noteq> 0" by (simp add: cong)
      show ?thesis
        unfolding redistributeDelegates_viable [OF a' p' v'] result_reset cong
          redistributeDelegates_frame
        by (simp add: redistributeDelegates_viable [OF a p v])
    qed
  qed
qed

theorem idempotence_witness:
  "redistributeDelegates lcg (redistributeDelegates lcg tiedPair)
     = redistributeDelegates lcg tiedPair
   \<and> map tossLog (subcaucuses (redistributeDelegates lcg tiedPair))
     = [[(2, False)], [(1, True)]]"
  using idempotence [of lcg tiedPair]
  by (simp add: tiedPair_def run_defs)

subsection \<open>The audit flag\<close>

lemma walk_append_fst:
  "fst (walk A w (xs @ ys)) = fst (walk A (fst (walk A w xs)) ys)"
  by (induction xs arbitrary: w) (simp_all add: walk_Cons_fst del: walk.simps(2))

lemma walk_Nil_fst [simp]: "fst (walk A w []) = w"
  by simp

text \<open>The walk once no seat is left and the last step gave none.\<close>

lemma walk_quiet:
  assumes "A \<le> w_totalDelegates w" and "\<not> w_justAdded w"
    and "\<forall>e\<in>set ys. 0 \<le> remainder (snd e)"
  shows "w_reportingTo (fst (walk A w ys))
         = w_reportingTo w @ map fst (takeWhile (\<lambda>e. remainder (snd e) = w_remainder w) ys)"
  using assms
proof (induction ys arbitrary: w)
  case Nil
  show ?case by simp
next
  case (Cons y ys)
  let ?w1 = "fst (walkStep A w y)"
  have tot: "A \<le> w_totalDelegates ?w1" and ja: "\<not> w_justAdded ?w1"
    using Cons.prems by (simp_all add: walkStep_def Let_def)
  have rest: "\<forall>e\<in>set ys. 0 \<le> remainder (snd e)" using Cons.prems by simp
  note IH = Cons.IH [OF tot ja rest]
  show ?case
  proof (cases "w_remainder w = remainder (snd y)")
    case True
    then have "w_reportingTo ?w1 = w_reportingTo w @ [fst y]" "w_remainder ?w1 = w_remainder w"
      using Cons.prems by (simp_all add: walkStep_def Let_def)
    with IH True show ?thesis by (simp add: walk_Cons_fst del: walk.simps(2))
  next
    case False
    then have w1: "w_reportingTo ?w1 = w_reportingTo w" "w_remainder ?w1 = -1"
      using Cons.prems by (simp_all add: walkStep_def Let_def)
    have "takeWhile (\<lambda>e. remainder (snd e) = -1) ys = []"
      using rest by (cases ys) auto
    with IH False w1 show ?thesis by (simp add: walk_Cons_fst del: walk.simps(2))
  qed
qed

lemma sorted_desc_last_le:
  assumes "sorted_wrt (\<lambda>a b. remainder (snd b) \<le> remainder (snd a)) xs" and "e \<in> set xs"
  shows "remainder (snd (last xs)) \<le> remainder (snd e)"
  using assms by (induction xs) auto

text \<open>The walk over subcaucuses that all receive a seat, from the initial state.\<close>

lemma walk_winners:
  assumes "xs \<noteq> []"
    and "t + length xs \<le> A"
    and "sorted_wrt (\<lambda>a b. remainder (snd b) \<le> remainder (snd a)) xs"
    and "\<forall>e\<in>set xs. 0 \<le> remainder (snd e)"
  shows "fst (walk A \<lparr>w_totalDelegates = t, w_remainder = -1, w_reportingTo = [],
                      w_justAdded = False\<rparr> xs)
         = \<lparr>w_totalDelegates = t + length xs, w_remainder = remainder (snd (last xs)),
            w_reportingTo = map fst (filter (\<lambda>e. remainder (snd e) = remainder (snd (last xs))) xs),
            w_justAdded = True\<rparr>"
  using assms
proof (induction xs rule: rev_induct)
  case Nil
  then show ?case by simp
next
  case (snoc x xs)
  let ?w0 = "\<lparr>w_totalDelegates = t, w_remainder = -1, w_reportingTo = [], w_justAdded = False\<rparr>"
  have x0: "0 \<le> remainder (snd x)" using snoc.prems by simp
  show ?case
  proof (cases "xs = []")
    case True
    with snoc.prems x0 show ?thesis
      by (simp add: walk_Cons_fst walkStep_def Let_def del: walk.simps(2))
  next
    case False
    have srt: "sorted_wrt (\<lambda>a b. remainder (snd b) \<le> remainder (snd a)) xs"
      and le: "\<forall>e\<in>set xs. remainder (snd x) \<le> remainder (snd e)"
      using snoc.prems(3) by (simp_all add: sorted_wrt_append)
    have IH: "fst (walk A ?w0 xs)
         = \<lparr>w_totalDelegates = t + length xs, w_remainder = remainder (snd (last xs)),
            w_reportingTo = map fst (filter (\<lambda>e. remainder (snd e) = remainder (snd (last xs))) xs),
            w_justAdded = True\<rparr>"
      using snoc.IH [OF False _ srt] snoc.prems by simp
    have lt: "t + length xs < A" using snoc.prems(2) by simp
    show ?thesis
    proof (cases "remainder (snd (last xs)) = remainder (snd x)")
      case True
      with IH lt show ?thesis
        by (simp add: walk_append_fst walk_Cons_fst walkStep_def Let_def del: walk.simps(2))
    next
      case ne: False
      have "last xs \<in> set xs" using False by simp
      with le ne have "remainder (snd x) < remainder (snd (last xs))" by force
      moreover have "\<forall>e\<in>set xs. remainder (snd (last xs)) \<le> remainder (snd e)"
        using sorted_desc_last_le [OF srt] by blast
      ultimately have "filter (\<lambda>e. remainder (snd e) = remainder (snd x)) xs = []"
        by (auto simp add: filter_empty_conv)
      with IH lt ne show ?thesis
        by (simp add: walk_append_fst walk_Cons_fst walkStep_def Let_def del: walk.simps(2))
    qed
  qed
qed

lemma takeWhile_sorted_set:
  assumes "sorted_wrt (\<lambda>a b. remainder (snd b) \<le> remainder (snd a)) zs"
    and "\<forall>e\<in>set zs. remainder (snd e) \<le> \<rho>"
  shows "set (takeWhile (\<lambda>e. remainder (snd e) = \<rho>) zs) = {e \<in> set zs. remainder (snd e) = \<rho>}"
  using assms
proof (induction zs)
  case Nil
  show ?case by simp
next
  case (Cons z zs)
  show ?case
  proof (cases "remainder (snd z) = \<rho>")
    case True
    with Cons show ?thesis by auto
  next
    case False
    with Cons.prems have "\<forall>e\<in>set zs. remainder (snd e) < \<rho>" by force
    with False show ?thesis by auto
  qed
qed

text \<open>The walk over the subcaucuses that receive no seat, after one that received a seat.\<close>

lemma walk_losers:
  assumes t: "A \<le> w_totalDelegates w" and j: "w_justAdded w"
    and nn: "\<forall>e\<in>set (y # ys). 0 \<le> remainder (snd e)"
  shows "w_reportingTo (fst (walk A w (y # ys)))
         = (if w_remainder w = remainder (snd y)
            then w_reportingTo w
                 @ map fst (takeWhile (\<lambda>e. remainder (snd e) = w_remainder w) (y # ys))
            else [])"
proof -
  let ?w1 = "fst (walkStep A w y)"
  have tot: "A \<le> w_totalDelegates ?w1" and ja: "\<not> w_justAdded ?w1"
    using t by (simp_all add: walkStep_def Let_def)
  have rest: "\<forall>e\<in>set ys. 0 \<le> remainder (snd e)" using nn by simp
  note q = walk_quiet [OF tot ja rest]
  show ?thesis
  proof (cases "w_remainder w = remainder (snd y)")
    case True
    then have "w_reportingTo ?w1 = w_reportingTo w @ [fst y]" "w_remainder ?w1 = w_remainder w"
      using t by (simp_all add: walkStep_def Let_def)
    with q True show ?thesis by (simp add: walk_Cons_fst del: walk.simps(2))
  next
    case False
    then have w1: "w_reportingTo ?w1 = []" "w_remainder ?w1 = -1"
      using t j by (simp_all add: walkStep_def Let_def)
    have "takeWhile (\<lambda>e. remainder (snd e) = -1) ys = []"
      using rest by (cases ys) auto
    with q False w1 show ?thesis by (simp add: walk_Cons_fst del: walk.simps(2))
  qed
qed

text \<open>
  The references that the walk leaves in \<open>reportingTo\<close>, for a ranked list \<open>xs @ y # ys\<close>
  of which exactly the subcaucuses of \<open>xs\<close> receive a seat: the seats run out after
  \<open>xs\<close>, or there was none to begin with.
\<close>

lemma walk_reportingTo:
  assumes srt: "sorted_wrt (\<lambda>a b. remainder (snd b) \<le> remainder (snd a)) (xs @ y # ys)"
    and nn: "\<forall>e\<in>set (xs @ y # ys). 0 \<le> remainder (snd e)"
    and t: "if xs = [] then A \<le> t else t + length xs = A"
  shows "set (w_reportingTo (fst (walk A \<lparr>w_totalDelegates = t, w_remainder = -1,
            w_reportingTo = [], w_justAdded = False\<rparr> (xs @ y # ys))))
         = (if xs \<noteq> [] \<and> remainder (snd (last xs)) = remainder (snd y)
            then fst ` {e \<in> set (xs @ y # ys). remainder (snd e) = remainder (snd y)}
            else {})"
proof (cases "xs = []")
  case True
  let ?w0 = "\<lparr>w_totalDelegates = t, w_remainder = -1, w_reportingTo = [], w_justAdded = False\<rparr>"
  have "takeWhile (\<lambda>e. remainder (snd e) = -1) (y # ys) = []"
    using nn by auto
  with walk_quiet [of A ?w0 "y # ys"] nn t True show ?thesis by simp
next
  case False
  let ?w0 = "\<lparr>w_totalDelegates = t, w_remainder = -1, w_reportingTo = [], w_justAdded = False\<rparr>"
  let ?\<rho> = "remainder (snd (last xs))"
  have sx: "sorted_wrt (\<lambda>a b. remainder (snd b) \<le> remainder (snd a)) xs"
    and sy: "sorted_wrt (\<lambda>a b. remainder (snd b) \<le> remainder (snd a)) (y # ys)"
    and cross: "\<forall>a\<in>set xs. \<forall>b\<in>set (y # ys). remainder (snd b) \<le> remainder (snd a)"
    using srt by (simp_all add: sorted_wrt_append)
  have t': "t + length xs = A" using t False by simp
  have w1: "fst (walk A ?w0 xs)
      = \<lparr>w_totalDelegates = t + length xs, w_remainder = ?\<rho>,
         w_reportingTo = map fst (filter (\<lambda>e. remainder (snd e) = ?\<rho>) xs),
         w_justAdded = True\<rparr>"
    using walk_winners [OF False _ sx] nn t' by simp
  have nny: "\<forall>e\<in>set (y # ys). 0 \<le> remainder (snd e)" using nn by simp
  have rep: "w_reportingTo (fst (walk A ?w0 (xs @ y # ys)))
      = (if ?\<rho> = remainder (snd y)
         then map fst (filter (\<lambda>e. remainder (snd e) = ?\<rho>) xs)
              @ map fst (takeWhile (\<lambda>e. remainder (snd e) = ?\<rho>) (y # ys))
         else [])"
    unfolding walk_append_fst w1
    using walk_losers [of A "\<lparr>w_totalDelegates = t + length xs, w_remainder = ?\<rho>,
         w_reportingTo = map fst (filter (\<lambda>e. remainder (snd e) = ?\<rho>) xs),
         w_justAdded = True\<rparr>" y ys] nny t'
    by simp
  show ?thesis
  proof (cases "?\<rho> = remainder (snd y)")
    case ne: False
    with rep False show ?thesis by simp
  next
    case eq: True
    have "last xs \<in> set xs" using False by simp
    with cross eq have "\<forall>b\<in>set (y # ys). remainder (snd b) \<le> remainder (snd y)" by force
    from takeWhile_sorted_set [OF sy this]
    have tw: "set (takeWhile (\<lambda>e. remainder (snd e) = remainder (snd y)) (y # ys))
          = {e \<in> set (y # ys). remainder (snd e) = remainder (snd y)}" .
    have "w_reportingTo (fst (walk A ?w0 (xs @ y # ys)))
          = map fst (filter (\<lambda>e. remainder (snd e) = remainder (snd y)) xs)
            @ map fst (takeWhile (\<lambda>e. remainder (snd e) = remainder (snd y)) (y # ys))"
      unfolding rep by (simp only: eq simp_thms if_True)
    then have "set (w_reportingTo (fst (walk A ?w0 (xs @ y # ys))))
          = fst ` set (filter (\<lambda>e. remainder (snd e) = remainder (snd y)) xs)
            \<union> fst ` set (takeWhile (\<lambda>e. remainder (snd e) = remainder (snd y)) (y # ys))"
      by (simp only: set_append set_map)
    also have "\<dots> = fst ` ({e \<in> set xs. remainder (snd e) = remainder (snd y)}
                   \<union> {e \<in> set (y # ys). remainder (snd e) = remainder (snd y)})"
      by (simp only: tw set_filter image_Un)
    also have "\<dots> = fst ` {e \<in> set (xs @ y # ys). remainder (snd e) = remainder (snd y)}"
      by (intro arg_cong [where f = "image fst"]) auto
    finally show ?thesis using eq False by simp
  qed
qed

text \<open>
  The flag after the walk and the marking, for a ranked list \<open>xs @ y # ys\<close> of which
  exactly the subcaucuses of \<open>xs\<close> received a seat: it is set for the subcaucuses whose
  remainder is the remainder of one that received a seat and of one that did not.
\<close>

lemma report_iff:
  assumes srt: "sorted_wrt (\<lambda>a b. remainder (snd b) \<le> remainder (snd a)) (xs @ y # ys)"
    and d: "distinct (map fst (xs @ y # ys))"
    and rd0: "\<forall>e\<in>set (xs @ y # ys). remainderDelegates (snd e) = 0"
    and rt0: "\<forall>e\<in>set (xs @ y # ys). \<not> reportTosses (snd e)"
    and R: "set R = (if xs \<noteq> [] \<and> remainder (snd (last xs)) = remainder (snd y)
                    then fst ` {e \<in> set (xs @ y # ys). remainder (snd e) = remainder (snd y)}
                    else {})"
    and e: "e \<in> set (markReports R (map (apsnd addRemainderDelegate) xs @ y # ys))"
  shows "reportTosses (snd e) \<longleftrightarrow>
         (\<exists>w\<in>set (markReports R (map (apsnd addRemainderDelegate) xs @ y # ys)).
             remainderDelegates (snd w) = 1 \<and> remainder (snd w) = remainder (snd e))
         \<and> (\<exists>l\<in>set (markReports R (map (apsnd addRemainderDelegate) xs @ y # ys)).
             remainderDelegates (snd l) = 0 \<and> remainder (snd l) = remainder (snd e))"
proof -
  let ?F = "markReports R (map (apsnd addRemainderDelegate) xs @ y # ys)"
  let ?r = "xs @ y # ys"
  define mark :: "SubRef \<Rightarrow> SubRef"
    where "mark = (\<lambda>e0. (fst e0, if fst e0 \<in> set R then (snd e0)\<lparr>reportTosses := True\<rparr> else snd e0))"
  have mark_simps: "fst (mark e0) = fst e0" "remainder (snd (mark e0)) = remainder (snd e0)"
    "remainderDelegates (snd (mark e0)) = remainderDelegates (snd e0)"
    "reportTosses (snd (mark e0)) = (fst e0 \<in> set R \<or> reportTosses (snd e0))" for e0
    by (simp_all add: mark_def)
  have F: "set ?F = (mark \<circ> apsnd addRemainderDelegate) ` set xs \<union> mark ` set (y # ys)"
    unfolding markReports_set mark_def [symmetric] by (simp only: set_append set_map image_Un image_comp)
  have sx: "sorted_wrt (\<lambda>a b. remainder (snd b) \<le> remainder (snd a)) xs"
    and sy: "\<forall>b\<in>set ys. remainder (snd b) \<le> remainder (snd y)"
    and cross: "\<forall>a\<in>set xs. \<forall>b\<in>set (y # ys). remainder (snd b) \<le> remainder (snd a)"
    using srt by (simp_all add: sorted_wrt_append)
  have rdy: "\<forall>e0\<in>set (y # ys). remainderDelegates (snd e0) = 0" using rd0 by simp
  have winners: "(\<exists>w\<in>set ?F. remainderDelegates (snd w) = 1 \<and> remainder (snd w) = \<rho>)
                 \<longleftrightarrow> (\<exists>e0\<in>set xs. remainder (snd e0) = \<rho>)" for \<rho>
    unfolding F using rdy by (simp add: bex_Un mark_simps del: set_simps)
  have losers: "(\<exists>l\<in>set ?F. remainderDelegates (snd l) = 0 \<and> remainder (snd l) = \<rho>)
                 \<longleftrightarrow> (\<exists>e0\<in>set (y # ys). remainder (snd e0) = \<rho>)" for \<rho>
    unfolding F using rdy by (simp add: bex_Un mark_simps del: set_simps)
  have straddle: "(\<exists>e1\<in>set xs. remainder (snd e1) = \<rho>) \<and> (\<exists>e2\<in>set (y # ys). remainder (snd e2) = \<rho>)
      \<longleftrightarrow> xs \<noteq> [] \<and> remainder (snd (last xs)) = remainder (snd y) \<and> \<rho> = remainder (snd y)" for \<rho>
  proof
    assume "(\<exists>e1\<in>set xs. remainder (snd e1) = \<rho>) \<and> (\<exists>e2\<in>set (y # ys). remainder (snd e2) = \<rho>)"
    then obtain e1 e2 where e1: "e1 \<in> set xs" "remainder (snd e1) = \<rho>"
      and e2: "e2 \<in> set (y # ys)" "remainder (snd e2) = \<rho>" by blast
    from e1(1) have ne: "xs \<noteq> []" by auto
    then have lx: "last xs \<in> set xs" by simp
    have "remainder (snd (last xs)) \<le> \<rho>" using sorted_desc_last_le [OF sx e1(1)] e1(2) by simp
    moreover have "\<rho> \<le> remainder (snd y)" using e2 sy by auto
    moreover have "remainder (snd y) \<le> remainder (snd (last xs))" using cross lx by simp
    ultimately show "xs \<noteq> [] \<and> remainder (snd (last xs)) = remainder (snd y) \<and> \<rho> = remainder (snd y)"
      using ne by simp
  next
    assume h: "xs \<noteq> [] \<and> remainder (snd (last xs)) = remainder (snd y) \<and> \<rho> = remainder (snd y)"
    then have "last xs \<in> set xs" by simp
    with h show "(\<exists>e1\<in>set xs. remainder (snd e1) = \<rho>) \<and> (\<exists>e2\<in>set (y # ys). remainder (snd e2) = \<rho>)"
      by auto
  qed
  from e have "e \<in> (mark \<circ> apsnd addRemainderDelegate) ` set xs \<union> mark ` set (y # ys)"
    unfolding F .
  then consider (w) e0 where "e0 \<in> set xs" "e = mark (apsnd addRemainderDelegate e0)"
    | (l) e0 where "e0 \<in> set (y # ys)" "e = mark e0"
    by (auto simp only: Un_iff image_iff comp_def)
  then obtain e1 where e1: "e1 \<in> set ?r" "fst e = fst e1"
    "remainder (snd e) = remainder (snd e1)"
    "reportTosses (snd e) = (fst e1 \<in> set R \<or> reportTosses (snd e1))"
  proof cases
    case w
    show ?thesis
      by (rule that [of e0]) (use w in \<open>simp_all add: mark_simps\<close>)
  next
    case l
    show ?thesis
      by (rule that [of e0]) (use l in \<open>auto simp add: mark_simps\<close>)
  qed
  have rem_e: "remainder (snd e) = remainder (snd e1)" by (rule e1(3))
  have "reportTosses (snd e) \<longleftrightarrow> fst e1 \<in> set R"
    using e1 rt0 by simp
  also have "\<dots> \<longleftrightarrow> xs \<noteq> [] \<and> remainder (snd (last xs)) = remainder (snd y)
                    \<and> remainder (snd e1) = remainder (snd y)"
  proof (cases "xs \<noteq> [] \<and> remainder (snd (last xs)) = remainder (snd y)")
    case False
    with R show ?thesis by auto
  next
    case True
    have "fst e1 \<in> fst ` {e \<in> set ?r. remainder (snd e) = remainder (snd y)}
          \<longleftrightarrow> remainder (snd e1) = remainder (snd y)"
    proof
      assume "fst e1 \<in> fst ` {e \<in> set ?r. remainder (snd e) = remainder (snd y)}"
      then obtain e' where e': "e' \<in> set ?r" "remainder (snd e') = remainder (snd y)"
        "fst e1 = fst e'" by auto
      from d e1(1) e'(1) e'(3) have "e1 = e'"
        by (metis distinct_map inj_onD)
      with e'(2) show "remainder (snd e1) = remainder (snd y)" by simp
    next
      assume "remainder (snd e1) = remainder (snd y)"
      with e1(1) show "fst e1 \<in> fst ` {e \<in> set ?r. remainder (snd e) = remainder (snd y)}"
        by blast
    qed
    with R True show ?thesis by simp
  qed
  also have "\<dots> \<longleftrightarrow> (\<exists>e1'\<in>set xs. remainder (snd e1') = remainder (snd e1))
                    \<and> (\<exists>e2\<in>set (y # ys). remainder (snd e2) = remainder (snd e1))"
    by (simp only: straddle)
  finally show ?thesis
    by (simp only: winners losers rem_e)
qed

text \<open>
  The flag of an entry of the final \<open>vSubs\<close>, when the seats run out before the end of
  the ranked list.
\<close>

lemma vSubsFinal_report:
  assumes L: "allowed s - sumBaseDelegates (map snd (vSubsQuota s)) < length (vSubsRanked P s)"
    and e: "e \<in> set (vSubsFinal P s)"
  shows "reportTosses (snd e) \<longleftrightarrow>
         (\<exists>w\<in>set (vSubsFinal P s).
             remainderDelegates (snd w) = 1 \<and> remainder (snd w) = remainder (snd e))
         \<and> (\<exists>l\<in>set (vSubsFinal P s).
             remainderDelegates (snd l) = 0 \<and> remainder (snd l) = remainder (snd e))"
proof -
  let ?r = "vSubsRanked P s"
  let ?t = "sumBaseDelegates (map snd (vSubsQuota s))"
  let ?L = "allowed s - ?t"
  let ?xs = "take ?L ?r" and ?y = "?r ! ?L" and ?ys = "drop (Suc ?L) ?r"
  let ?w0 = "\<lparr>w_totalDelegates = ?t, w_remainder = -1, w_reportingTo = [], w_justAdded = False\<rparr>"
  have split: "?r = ?xs @ ?y # ?ys"
    using L by (rule id_take_nth_drop)
  have tl: "if ?xs = [] then allowed s \<le> ?t else ?t + length ?xs = allowed s"
    using L by (auto simp add: take_eq_Nil)
  have srt: "sorted_wrt (\<lambda>a b. remainder (snd b) \<le> remainder (snd a)) (?xs @ ?y # ?ys)"
    using vSubsRanked_sorted [of P s] split by simp
  have nn: "\<forall>e\<in>set (?xs @ ?y # ?ys). 0 \<le> remainder (snd e)"
    using vSubsRanked_remainder_nonneg [of _ P s] split by metis
  have d: "distinct (map fst (?xs @ ?y # ?ys))"
    using vSubsRanked_distinct [of P s] split by simp
  have rd0: "\<forall>e\<in>set (?xs @ ?y # ?ys). remainderDelegates (snd e) = 0"
    using vSubsRanked_remainderDelegates [of _ P s] split by metis
  have rt0: "\<forall>e\<in>set (?xs @ ?y # ?ys). \<not> reportTosses (snd e)"
    using vSubsRanked_reportTosses [of _ P s] split by metis
  have wk: "walkOf P s = walk (allowed s) ?w0 (?xs @ ?y # ?ys)"
    unfolding walkOf_def using split by simp
  have R: "set (w_reportingTo (fst (walkOf P s)))
      = (if ?xs \<noteq> [] \<and> remainder (snd (last ?xs)) = remainder (snd ?y)
         then fst ` {e \<in> set (?xs @ ?y # ?ys). remainder (snd e) = remainder (snd ?y)}
         else {})"
    unfolding wk by (rule walk_reportingTo [OF srt nn tl])
  have "snd (walkOf P s) = map (apsnd addRemainderDelegate) ?xs @ drop ?L ?r"
    unfolding walkOf_def walk_snd by simp
  also have "drop ?L ?r = ?y # ?ys"
    using L by (simp add: Cons_nth_drop_Suc)
  finally have W: "snd (walkOf P s) = map (apsnd addRemainderDelegate) ?xs @ ?y # ?ys" .
  have F: "vSubsFinal P s
      = markReports (w_reportingTo (fst (walkOf P s)))
          (map (apsnd addRemainderDelegate) ?xs @ ?y # ?ys)"
    unfolding vSubsFinal_def W ..
  from e show ?thesis
    unfolding F by (rule report_iff [OF srt d rd0 rt0 R])
qed

text \<open>An entry without a remainder delegate shows that the seats ran out before the end.\<close>

lemma vSubsFinal_loser:
  assumes e: "e \<in> set (vSubsFinal P s)" and z: "remainderDelegates (snd e) = 0"
  shows "allowed s - sumBaseDelegates (map snd (vSubsQuota s)) < length (vSubsRanked P s)"
proof (rule ccontr)
  let ?r = "vSubsRanked P s"
  let ?L = "allowed s - sumBaseDelegates (map snd (vSubsQuota s))"
  assume "\<not> ?L < length ?r"
  then have "snd (walkOf P s) = map (apsnd addRemainderDelegate) ?r"
    unfolding walkOf_def walk_snd by simp
  moreover have "map (\<lambda>e. remainderDelegates (snd e)) (vSubsFinal P s)
        = map (\<lambda>e. remainderDelegates (snd e)) (snd (walkOf P s))"
    unfolding vSubsFinal_def by (rule markReports_proj) simp
  ultimately have "map (\<lambda>e. remainderDelegates (snd e)) (vSubsFinal P s)
        = map (\<lambda>e. 1) ?r"
    by (simp add: comp_def)
  then have "set (map (\<lambda>e. remainderDelegates (snd e)) (vSubsFinal P s)) \<subseteq> {1}"
    by auto
  with e z show False by auto
qed

lemma result_count:
  assumes "i < length (subcaucuses s)"
  shows "count_sub (subcaucuses (redistributeDelegates P s) ! i) = count_sub (subcaucuses s ! i)"
proof -
  have "clearDelegateInfo (subcaucuses (redistributeDelegates P s) ! i)
        = clearDelegateInfo (subcaucuses s ! i)"
    using arg_cong [where f = "\<lambda>xs. xs ! i", OF result_reset [of P s]] assms
    by (simp add: result_length)
  from arg_cong [where f = count_sub, OF this] show ?thesis by simp
qed




subsection \<open>The guard of \<open>revise\<close>\<close>

text \<open>
  C10. \<open>revise\<close> always stamps \<open>revised\<close> with the current time and empties
  \<open>revision\<close>; a name that is absent or empty, an allotment that is absent or zero and
  a seed that is absent or zero leave the field of the snapshot as it was, also through
  the recomputation that follows.
\<close>

theorem revise_falsy_guard:
  "revised (revise P now update s) = now
   \<and> revision (revise P now update s) = ''''
   \<and> (update = None \<or> u_name (the update) = None \<or> u_name (the update) = Some ''''
        \<longrightarrow> name (revise P now update s) = name s)
   \<and> (update = None \<or> u_allowed (the update) = None \<or> u_allowed (the update) = Some 0
        \<longrightarrow> allowed (revise P now update s) = allowed s)
   \<and> (update = None \<or> u_seed (the update) = None \<or> u_seed (the update) = Some 0
        \<longrightarrow> seed (revise P now update s) = seed s)"
  by (cases update)
     (auto simp add: revise_def redistributeDelegates_frame Let_def split: option.splits)

theorem revise_falsy_guard_witness:
  "u_name (the (Some falsyUpdate)) = Some ''''
   \<and> u_allowed (the (Some falsyUpdate)) = Some 0
   \<and> u_seed (the (Some falsyUpdate)) = Some 0
   \<and> revised (revise lcg ''2019-03-01'' (Some falsyUpdate) scenarioC) = ''2019-03-01''
   \<and> revision (revise lcg ''2019-03-01'' (Some falsyUpdate) scenarioC) = ''''
   \<and> name (revise lcg ''2019-03-01'' (Some falsyUpdate) scenarioC) = ''''
   \<and> allowed (revise lcg ''2019-03-01'' (Some falsyUpdate) scenarioC) = 2
   \<and> seed (revise lcg ''2019-03-01'' (Some falsyUpdate) scenarioC) = 1"
  using revise_falsy_guard [of lcg "''2019-03-01''" "Some falsyUpdate" scenarioC]
  by (simp add: falsyUpdate_def scenarioC_def newSnapshot_def)

text \<open>A truthy field of the update is stored.\<close>

lemma revise_truthy:
  "u_name u = Some n \<Longrightarrow> n \<noteq> '''' \<Longrightarrow> name (revise P now (Some u) s) = n"
  "u_allowed u = Some a \<Longrightarrow> a \<noteq> 0 \<Longrightarrow> allowed (revise P now (Some u) s) = a"
  "u_seed u = Some sd \<Longrightarrow> sd \<noteq> 0 \<Longrightarrow> seed (revise P now (Some u) s) = sd"
  by (simp_all add: revise_def redistributeDelegates_frame Let_def split: option.splits)

subsection \<open>Early exits\<close>

text \<open>
  C3, as the specification states it, fails. With no allotment the computation returns
  before the reset, so a subcaucus keeps the delegates it carried; and after
  \<open>clearCounts\<close> on the computed scenario C nobody participates, yet the snapshot
  still shows two delegates and the viability number five.
\<close>

theorem early_exit_counterexample:
  "allowed unconfigured = 0
   \<and> map baseDelegates (subcaucuses (redistributeDelegates lcg unconfigured)) = [2, 0]
   \<and> participants (clearCounts lcg ''2019-03-01'' (redistributeDelegates lcg scenarioC)) = 0
   \<and> totalDelegates (clearCounts lcg ''2019-03-01'' (redistributeDelegates lcg scenarioC)) = 2
   \<and> viabilityNumber (clearCounts lcg ''2019-03-01'' (redistributeDelegates lcg scenarioC)) = 5"
  by (simp add: unconfigured_def scenarioC_def clearCounts_def run_defs)

text \<open>
  C3, amended. With no allotment the computation changes nothing. With an allotment
  the result is that of the computation on the reset subcaucuses, so nothing of an
  earlier computation reaches it; and when nobody participates the computation stops
  with \<open>participants = 0\<close> and every subcaucus reset.
\<close>

theorem early_exit_reset:
  "(allowed s = 0 \<longrightarrow> redistributeDelegates P s = s)
   \<and> (allowed s \<noteq> 0 \<longrightarrow>
        redistributeDelegates P s =
        redistributeDelegates P (s\<lparr>subcaucuses := map clearDelegateInfo (subcaucuses s)\<rparr>))
   \<and> (allowed s \<noteq> 0 \<and> sumCounts (subcaucuses s) = 0 \<longrightarrow>
        participants (redistributeDelegates P s) = 0
        \<and> subcaucuses (redistributeDelegates P s) = map clearDelegateInfo (subcaucuses s))"
  by (simp add: redistributeDelegates_def Let_def comp_def)

theorem early_exit_reset_witness:
  "allowed unconfigured = 0
   \<and> redistributeDelegates lcg unconfigured = unconfigured
   \<and> allowed emptyRoom \<noteq> 0
   \<and> sumCounts (subcaucuses emptyRoom) = 0
   \<and> participants (redistributeDelegates lcg emptyRoom) = 0
   \<and> subcaucuses (redistributeDelegates lcg emptyRoom) = [newSubcaucus 1 0]"
  using early_exit_reset [of unconfigured lcg] early_exit_reset [of emptyRoom lcg]
  by (simp add: unconfigured_def emptyRoom_def run_defs)

end
